theory Spec2Isabelle
  imports Complex_Main "HOL-Library.Multiset"
begin

section \<open>Data model\<close>

text \<open>
  The broadcast engine of the bot lives in two places: the PRO broadcast
  (\<^verbatim>\<open>run_broadcast\<close> and its handlers, module \<^verbatim>\<open>broadcast_pro\<close>) and the simple
  broadcast (the \<^verbatim>\<open>ok\<close> branch of \<^verbatim>\<open>admin_broadcast_flow\<close> in \<^verbatim>\<open>main.py\<close>).

  A Telegram message as far as the engine reads it. \<^verbatim>\<open>msg.text\<close> and
  \<^verbatim>\<open>msg.caption\<close> are \<^verbatim>\<open>None\<close> or a string; strings are lists of characters, one
  list element per unit that Python's \<^verbatim>\<open>len\<close> and slicing count.
\<close>

record message =
  content_type :: string
  msg_text :: "string option"
  msg_caption :: "string option"
  chat_id :: int
  message_id :: int

text \<open>
  One value of the dictionary \<^verbatim>\<open>pro_states\<close>: a Python dict with the keys
  \<^verbatim>\<open>step\<close>, \<^verbatim>\<open>msg\<close>, \<^verbatim>\<open>paused\<close>, \<^verbatim>\<open>stopped\<close>. A key that is absent is \<open>None\<close>
  here, which is what \<^verbatim>\<open>st.get(key)\<close> returns for it.
\<close>

record pro_state =
  step :: "string option"
  msg :: "message option"
  paused :: "bool option"
  stopped :: "bool option"

text \<open>Truth value of \<^verbatim>\<open>st.get("paused")\<close> and \<^verbatim>\<open>st.get("stopped")\<close>.\<close>

definition truthy :: "bool option \<Rightarrow> bool" where
  "truthy b = (b = Some True)"

text \<open>Truth value of a string that may be \<^verbatim>\<open>None\<close>, and Python's \<^verbatim>\<open>x or ""\<close>.\<close>

definition nonempty :: "string option \<Rightarrow> bool" where
  "nonempty x = (case x of None \<Rightarrow> False | Some s \<Rightarrow> s \<noteq> [])"

definition or_empty :: "string option \<Rightarrow> string" where
  "or_empty x = (case x of None \<Rightarrow> [] | Some s \<Rightarrow> s)"

text \<open>
  A row of the table \<^verbatim>\<open>broadcast_history\<close> (\<^verbatim>\<open>db.py\<close>). Timestamps are
  seconds. The three text columns may be NULL; the other columns are filled by
  every insert of the engine and are taken to be non-null.
\<close>

record history_row =
  row_id :: int
  created_at :: int
  admin_id :: int
  row_type :: "string option"
  media_type :: "string option"
  sent_count :: int
  total_users :: int
  message_text :: "string option"

text \<open>
  The shared state that the worker and the handlers both touch. \<^verbatim>\<open>pro_states\<close>
  maps an operator to a reference; \<open>heap\<close> holds the dict objects. The worker
  keeps the reference it read at the iteration boundary while it waits, so the
  model keeps references and objects apart. \<open>history_seq\<close> is the SERIAL
  sequence of the history table.
\<close>

record world =
  pro_states :: "int \<rightharpoonup> nat"
  heap :: "nat \<Rightarrow> pro_state"
  next_ref :: nat
  broadcast_history :: "history_row list"
  history_seq :: int

text \<open>\<^verbatim>\<open>pro_states.get(admin_id)\<close>: the dict object, if any.\<close>

definition pro_states_get :: "world \<Rightarrow> int \<Rightarrow> pro_state option" where
  "pro_states_get w a = map_option (heap w) (pro_states w a)"

text \<open>\<^verbatim>\<open>pro_states[admin_id] = obj\<close> for a dict literal: a new object.\<close>

definition pro_states_set :: "int \<Rightarrow> pro_state \<Rightarrow> world \<Rightarrow> world" where
  "pro_states_set a obj w =
     w\<lparr>pro_states := (pro_states w)(a \<mapsto> next_ref w),
       heap := (heap w)(next_ref w := obj),
       next_ref := Suc (next_ref w)\<rparr>"

text \<open>\<^verbatim>\<open>pro_states.pop(admin_id, None)\<close>.\<close>

definition pro_states_pop :: "int \<Rightarrow> world \<Rightarrow> world" where
  "pro_states_pop a w = w\<lparr>pro_states := (pro_states w)(a := None)\<rparr>"

section \<open>Handlers of the PRO broadcast\<close>

text \<open>
  What a handler tells the operator. The Russian reply texts of the source are
  named by constructors. \<open>AlreadyActive\<close> is the rejection the specification
  names; it is listed so that statements can speak about it.
\<close>

datatype reply =
    WaitingForMessage
  | NoActiveBroadcast
  | PreviewReady
  | Launched
  | Cancelled
  | PausedReply
  | ResumedReply
  | StoppedReply
  | AlreadyActive
  | NoReply

text \<open>\<^verbatim>\<open>manage_broadcast(act, c, bot)\<close> for the operator \<open>a\<close>.\<close>

definition manage_broadcast :: "string \<Rightarrow> int \<Rightarrow> world \<Rightarrow> reply \<times> world" where
  "manage_broadcast act a w =
     (case pro_states w a of
        None \<Rightarrow> (NoActiveBroadcast, w)
      | Some r \<Rightarrow>
          if act = ''pause'' then
            (PausedReply, w\<lparr>heap := (heap w)(r := (heap w r)\<lparr>paused := Some True\<rparr>)\<rparr>)
          else if act = ''resume'' then
            (ResumedReply, w\<lparr>heap := (heap w)(r := (heap w r)\<lparr>paused := Some False\<rparr>)\<rparr>)
          else if act = ''stop'' then
            (StoppedReply, w\<lparr>heap := (heap w)(r := (heap w r)\<lparr>stopped := Some True\<rparr>)\<rparr>)
          else (NoReply, w))"

text \<open>
  \<^verbatim>\<open>pro_callback\<close> with \<open>act\<close> the part of the callback data after \<^verbatim>\<open>pro:\<close>.
  The branches \<^verbatim>\<open>templates\<close> and \<^verbatim>\<open>history\<close> only read the store.
\<close>

definition pro_callback :: "string \<Rightarrow> int \<Rightarrow> world \<Rightarrow> reply \<times> world" where
  "pro_callback act a w =
     (if act = ''new'' then
        (WaitingForMessage,
         pro_states_set a \<lparr>step = Some ''wait_msg'', msg = None, paused = None, stopped = None\<rparr> w)
      else if act = ''templates'' then (NoReply, w)
      else if act = ''history'' then (NoReply, w)
      else if act \<in> {''pause'', ''resume'', ''stop''} then manage_broadcast act a w
      else (NoReply, w))"

text \<open>\<^verbatim>\<open>process_broadcast\<close>: a message of operator \<open>a\<close> arrives in the group.\<close>

definition process_broadcast :: "message \<Rightarrow> int \<Rightarrow> world \<Rightarrow> reply \<times> world" where
  "process_broadcast m a w =
     (case pro_states_get w a of
        None \<Rightarrow> (NoReply, w)
      | Some st \<Rightarrow>
          if step st \<noteq> Some ''wait_msg'' then (NoReply, w)
          else (PreviewReady,
                pro_states_set a
                  \<lparr>step = Some ''confirm'', msg = Some m,
                   paused = Some False, stopped = Some False\<rparr> w))"

text \<open>An exception that leaves a handler.\<close>

datatype error = KeyError

text \<open>
  \<^verbatim>\<open>pro_confirm_cb\<close>. For \<^verbatim>\<open>pro:confirm_send\<close> the handler reads \<^verbatim>\<open>st["msg"]\<close>,
  which raises \<^verbatim>\<open>KeyError\<close> for a state without that key; otherwise it
  schedules \<^verbatim>\<open>run_broadcast\<close> as a task and returns. The result carries the
  message the task is started with.
\<close>

definition pro_confirm_cb :: "string \<Rightarrow> int \<Rightarrow> world \<Rightarrow> error + reply \<times> message option \<times> world" where
  "pro_confirm_cb cdata a w =
     (if cdata = ''pro:cancel'' then Inr (Cancelled, None, pro_states_pop a w)
      else case pro_states_get w a of
             None \<Rightarrow> Inr (NoActiveBroadcast, None, w)
           | Some st \<Rightarrow>
               (case msg st of
                  None \<Rightarrow> Inl KeyError
                | Some m \<Rightarrow> Inr (Launched, Some m, w)))"

text \<open>
  What the handlers do to the shared state while the worker is suspended at an
  \<^verbatim>\<open>await\<close>. A tick is the list of handler runs during one suspension. A
  handler that raises leaves the state as it has made it; a second worker that
  a confirmation starts is not followed.
\<close>

datatype event =
    Callback string int
  | Incoming message int
  | Confirm string int

fun handle :: "event \<Rightarrow> world \<Rightarrow> world" where
  "handle (Callback act a) w = snd (pro_callback act a w)"
| "handle (Incoming m a) w = snd (process_broadcast m a w)"
| "handle (Confirm cdata a) w =
     (case pro_confirm_cb cdata a w of Inl x \<Rightarrow> w | Inr y \<Rightarrow> snd (snd y))"

definition run_tick :: "event list \<Rightarrow> world \<Rightarrow> world" where
  "run_tick t w = fold handle t w"

section \<open>The PRO delivery worker\<close>

text \<open>
  The collaborators of the worker. The transport fails per call: a predicate
  tells for which recipient \<^verbatim>\<open>bot.send_message\<close> and \<^verbatim>\<open>bot.copy_message\<close>
  raise. \<^verbatim>\<open>bot.edit_message_text\<close> on the control message raises or not; the
  call is identified by the counters it renders, which differ from one edit of
  a batch to the next. \<open>utcnow\<close> is the clock read by the history write.
  \<open>float_quot n\<close> is the float that Python computes for \<^verbatim>\<open>60.0 / n\<close>, as the
  rational number it denotes. The store and the operator's chat are taken to be available: the recipient
  query, the first control message, the history insert and the final tally
  return normally.
\<close>

record env =
  send_message_raises :: "int \<Rightarrow> bool"
  copy_message_raises :: "int \<Rightarrow> bool"
  edit_message_text_raises :: "nat \<Rightarrow> nat \<Rightarrow> bool"
  utcnow :: int
  float_quot :: "int \<Rightarrow> rat"

text \<open>What the engine does to the outside, in the order it does it.\<close>

datatype effect =
    SendMessage int "string option"
  | CopyMessage int int int
  | LogWarning int
  | Sleep rat
  | ControlMessage int nat
  | EditMessageText int nat nat nat
  | HistoryInsert history_row
  | Tally int nat nat nat
  | PopState int
  | Report nat nat

text \<open>The recipients that a trace attempts, in order, one per transport call.\<close>

fun attempts :: "effect list \<Rightarrow> int list" where
  "attempts [] = []"
| "attempts (SendMessage u t # es) = u # attempts es"
| "attempts (CopyMessage u c i # es) = u # attempts es"
| "attempts (e # es) = attempts es"

text \<open>The history rows that a trace inserts.\<close>

fun inserts :: "effect list \<Rightarrow> history_row list" where
  "inserts [] = []"
| "inserts (HistoryInsert r # es) = r # inserts es"
| "inserts (e # es) = inserts es"

text \<open>
  The local variables of \<^verbatim>\<open>run_broadcast\<close> together with the shared state,
  the handler runs still to come (one tick per \<^verbatim>\<open>await\<close>) and the trace.
  After the last tick no handler runs any more.
\<close>

record bc_state =
  sent :: nat
  failed :: nat
  shared :: world
  sched :: "event list list"
  trace :: "effect list"

text \<open>An \<^verbatim>\<open>await\<close> of the worker: the handlers of the next tick run.\<close>

definition suspend :: "bc_state \<Rightarrow> bc_state" where
  "suspend s =
     (case sched s of
        [] \<Rightarrow> s
      | t # ts \<Rightarrow> s\<lparr>shared := run_tick t (shared s), sched := ts\<rparr>)"

definition emit :: "effect \<Rightarrow> bc_state \<Rightarrow> bc_state" where
  "emit e s = s\<lparr>trace := trace s @ [e]\<rparr>"

text \<open>
  \<^verbatim>\<open>while st.get("paused"): await asyncio.sleep(1)\<close> for the object \<open>r\<close> that
  the worker holds, on the shared state, the ticks to come and the trace: each
  round requests a sleep of one second and suspends. \<open>None\<close>: the object is
  paused when the last tick is over, so the loop sleeps for ever.
\<close>

fun wait_paused :: "nat \<Rightarrow> world \<Rightarrow> event list list \<Rightarrow> effect list \<Rightarrow> (world \<times> event list list \<times> effect list) option" where
  "wait_paused r w [] tr = (if truthy (paused (heap w r)) then None else Some (w, [], tr))"
| "wait_paused r w (t # ts) tr =
     (if truthy (paused (heap w r)) then wait_paused r (run_tick t w) ts (tr @ [Sleep 1])
      else Some (w, t # ts, tr))"

text \<open>
  How an iteration, or the whole call, ends other than by going on. For
  \<open>Hung\<close> the state is the one at the iteration boundary where the endless
  wait begins.
\<close>

datatype ending =
    Completed
  | Broke
  | Raised
  | Hung

text \<open>
  \<^verbatim>\<open>delay = 0.05\<close>: the float that the literal denotes, which is
  \<open>1 / 20 + 1 / (5 * 2 ^ 56)\<close>.
\<close>

definition pro_delay :: rat where
  "pro_delay = 3602879701896397 / 72057594037927936"

text \<open>
  The \<^verbatim>\<open>try\<close> statement of the loop body for recipient \<open>u\<close>, with the
  \<^verbatim>\<open>await asyncio.sleep(delay)\<close> that follows it. A text message goes out by
  \<^verbatim>\<open>send_message\<close>, any other by \<^verbatim>\<open>copy_message\<close>.
\<close>

definition send_call :: "message \<Rightarrow> int \<Rightarrow> effect" where
  "send_call m u =
     (if content_type m = ''text'' then SendMessage u (msg_text m)
      else CopyMessage u (chat_id m) (message_id m))"

definition send_raises :: "env \<Rightarrow> message \<Rightarrow> int \<Rightarrow> bool" where
  "send_raises e m u =
     (if content_type m = ''text'' then send_message_raises e u
      else copy_message_raises e u)"

definition bc_send :: "env \<Rightarrow> message \<Rightarrow> int \<Rightarrow> bc_state \<Rightarrow> bc_state" where
  "bc_send e m u s =
     (let s1 = suspend (emit (send_call m u) s);
          s2 = (if send_raises e m u then emit (LogWarning u) (s1\<lparr>failed := failed s1 + 1\<rparr>)
                else s1\<lparr>sent := sent s1 + 1\<rparr>)
      in suspend (emit (Sleep pro_delay) s2))"

text \<open>
  One pass through the body of \<^verbatim>\<open>for uid in tg_ids\<close>: \<open>Inr\<close> the state at the
  next iteration boundary, \<open>Inl\<close> when the loop is left here. The test
  \<^verbatim>\<open>not st\<close> holds for a missing entry only, since every dict put into
  \<^verbatim>\<open>pro_states\<close> has a key. The progress edit is awaited outside the
  \<^verbatim>\<open>try\<close>, so its error leaves the loop and the function.
\<close>

definition bc_body :: "env \<Rightarrow> int \<Rightarrow> message \<Rightarrow> int list \<Rightarrow> int \<Rightarrow> bc_state \<Rightarrow> (ending \<times> bc_state) + bc_state" where
  "bc_body e a m tg_ids u s =
     (case pro_states (shared s) a of
        None \<Rightarrow> Inl (Broke, s)
      | Some r \<Rightarrow>
          if truthy (stopped (heap (shared s) r)) then Inl (Broke, s)
          else
            (case wait_paused r (shared s) (sched s) (trace s) of
               None \<Rightarrow> Inl (Hung, s)
             | Some (w, ts, tr) \<Rightarrow>
                 let s1 = bc_send e m u (s\<lparr>shared := w, sched := ts, trace := tr\<rparr>)
                 in if sent s1 mod 100 = 0 \<or> u = last tg_ids then
                      let s2 = suspend (emit (EditMessageText (chat_id m) (sent s1) (length tg_ids) (failed s1)) s1)
                      in if edit_message_text_raises e (sent s1) (failed s1)
                         then Inl (Raised, s2) else Inr s2
                    else Inr s1))"

text \<open>The \<^verbatim>\<open>for\<close> loop over the recipients \<open>us\<close> still to come.\<close>

fun bc_loop :: "env \<Rightarrow> int \<Rightarrow> message \<Rightarrow> int list \<Rightarrow> int list \<Rightarrow> bc_state \<Rightarrow> ending \<times> bc_state" where
  "bc_loop e a m tg_ids [] s = (Completed, s)"
| "bc_loop e a m tg_ids (u # us) s =
     (case bc_body e a m tg_ids u s of
        Inl x \<Rightarrow> x
      | Inr s' \<Rightarrow> bc_loop e a m tg_ids us s')"

text \<open>
  The same loop run over a prefix \<open>us\<close> of the recipients only: \<open>Some\<close> the
  state at the iteration boundary after \<open>us\<close>, \<open>None\<close> when the loop was
  left before.
\<close>

fun bc_boundary :: "env \<Rightarrow> int \<Rightarrow> message \<Rightarrow> int list \<Rightarrow> int list \<Rightarrow> bc_state \<Rightarrow> bc_state option" where
  "bc_boundary e a m tg_ids [] s = Some s"
| "bc_boundary e a m tg_ids (u # us) s =
     (case bc_body e a m tg_ids u s of
        Inl x \<Rightarrow> None
      | Inr s' \<Rightarrow> bc_boundary e a m tg_ids us s')"

text \<open>\<^verbatim>\<open>save_broadcast_history(pool, admin_id, msg, sent, total)\<close>.\<close>

definition stored_text :: "message \<Rightarrow> string" where
  "stored_text m =
     take 4000 (if nonempty (msg_text m) then or_empty (msg_text m)
                else if nonempty (msg_caption m) then or_empty (msg_caption m)
                else [])"

definition new_row :: "env \<Rightarrow> world \<Rightarrow> int \<Rightarrow> message \<Rightarrow> nat \<Rightarrow> nat \<Rightarrow> history_row" where
  "new_row e w a m n tot =
     \<lparr>row_id = history_seq w, created_at = utcnow e, admin_id = a,
      row_type = Some ''pro'', media_type = Some (content_type m),
      sent_count = int n, total_users = int tot,
      message_text = Some (stored_text m)\<rparr>"

definition save_broadcast_history :: "env \<Rightarrow> int \<Rightarrow> message \<Rightarrow> nat \<Rightarrow> nat \<Rightarrow> bc_state \<Rightarrow> bc_state" where
  "save_broadcast_history e a m n tot s =
     (let s1 = suspend s;
          row = new_row e (shared s1) a m n tot
      in emit (HistoryInsert row)
           (s1\<lparr>shared := (shared s1)\<lparr>broadcast_history := broadcast_history (shared s1) @ [row],
                                     history_seq := history_seq (shared s1) + 1\<rparr>\<rparr>))"

text \<open>The three statements after the loop.\<close>

definition bc_finish :: "env \<Rightarrow> int \<Rightarrow> message \<Rightarrow> nat \<Rightarrow> bc_state \<Rightarrow> bc_state" where
  "bc_finish e a m tot s =
     (let s1 = save_broadcast_history e a m (sent s) tot s;
          s2 = suspend (emit (Tally (chat_id m) (sent s1) tot (failed s1)) s1)
      in emit (PopState a) (s2\<lparr>shared := pro_states_pop a (shared s2)\<rparr>))"

text \<open>
  \<^verbatim>\<open>SELECT tg_id FROM users WHERE banned=FALSE\<close> on the rows
  \<open>(tg_id, banned)\<close> of the table \<^verbatim>\<open>users\<close>; \<open>banned\<close> may be NULL.
\<close>

definition resolve_recipients :: "(int \<times> bool option) list \<Rightarrow> int list" where
  "resolve_recipients users = map fst (filter (\<lambda>u. snd u = Some False) users)"

text \<open>
  The statements before the loop: the recipient query, the topic lookup and
  the control message, each an \<^verbatim>\<open>await\<close>. The variable \<^verbatim>\<open>state\<close> of the
  source is never read and is left out.
\<close>

definition bc_start :: "message \<Rightarrow> nat \<Rightarrow> world \<Rightarrow> event list list \<Rightarrow> bc_state" where
  "bc_start m tot w ts =
     (let s0 = \<lparr>sent = 0, failed = 0, shared = w, sched = ts, trace = []\<rparr>
      in suspend (emit (ControlMessage (chat_id m) tot) (suspend (suspend s0))))"

text \<open>
  \<^verbatim>\<open>run_broadcast(bot, pool, admin_id, msg)\<close>. The result says how the call
  ended: \<open>Completed\<close> and \<open>Broke\<close> return after the three closing statements,
  \<open>Raised\<close> leaves with the error of the progress edit, \<open>Hung\<close> never returns.
\<close>

definition run_broadcast :: "env \<Rightarrow> int \<Rightarrow> message \<Rightarrow> (int \<times> bool option) list \<Rightarrow> world \<Rightarrow> event list list \<Rightarrow> ending \<times> bc_state" where
  "run_broadcast e a m users w ts =
     (let tg_ids = resolve_recipients users;
          tot = length tg_ids;
          (k, s) = bc_loop e a m tg_ids tg_ids (bc_start m tot w ts)
      in if k = Completed \<or> k = Broke then (k, bc_finish e a m tot s) else (k, s))"

section \<open>The simple broadcast\<close>

text \<open>
  The transport calls of the simple broadcast for one recipient: \<open>True\<close> when
  the outer \<^verbatim>\<open>try\<close> catches an error, with the calls made. A failed
  \<^verbatim>\<open>copy_message\<close> is caught by the inner \<^verbatim>\<open>try\<close>, which then sends the text
  when the message has one.
\<close>

definition simple_send :: "env \<Rightarrow> message \<Rightarrow> int \<Rightarrow> bool \<times> effect list" where
  "simple_send e m u =
     (if content_type m = ''text'' then (send_message_raises e u, [SendMessage u (msg_text m)])
      else if copy_message_raises e u then
        (if nonempty (msg_text m)
         then (send_message_raises e u,
               [CopyMessage u (chat_id m) (message_id m), SendMessage u (msg_text m)])
         else (False, [CopyMessage u (chat_id m) (message_id m)]))
      else (False, [CopyMessage u (chat_id m) (message_id m)]))"

text \<open>
  \<^verbatim>\<open>delay = 0 if BROADCAST_RATE <= 0 else 60.0 / BROADCAST_RATE\<close>, in seconds:
  the quotient is the float that the division returns.
\<close>

definition simple_delay :: "env \<Rightarrow> int \<Rightarrow> rat" where
  "simple_delay e rate = (if rate \<le> 0 then 0 else float_quot e rate)"

text \<open>
  The body of the loop of the simple broadcast for recipient \<open>u\<close>, on
  \<open>(sent, failed, trace)\<close>, and the loop.
\<close>

definition simple_body :: "env \<Rightarrow> message \<Rightarrow> rat \<Rightarrow> int \<Rightarrow> nat \<times> nat \<times> effect list \<Rightarrow> nat \<times> nat \<times> effect list" where
  "simple_body e m d u acc =
     (let (n, f, tr) = acc;
          (raised, calls) = simple_send e m u;
          tr1 = tr @ calls;
          (n1, f1, tr2) = (if raised then (n, f + 1, tr1 @ [LogWarning u]) else (n + 1, f, tr1));
          tr3 = (if d \<noteq> 0 then tr2 @ [Sleep d] else tr2)
      in (n1, f1, tr3))"

fun simple_loop :: "env \<Rightarrow> message \<Rightarrow> rat \<Rightarrow> int list \<Rightarrow> nat \<times> nat \<times> effect list \<Rightarrow> nat \<times> nat \<times> effect list" where
  "simple_loop e m d [] acc = acc"
| "simple_loop e m d (u # us) acc = simple_loop e m d us (simple_body e m d u acc)"

text \<open>
  The branch \<^verbatim>\<open>txt == "ok"\<close> of \<^verbatim>\<open>admin_broadcast_flow\<close> for the confirmed
  message \<open>m\<close>, with \<open>rate\<close> the setting \<^verbatim>\<open>BROADCAST_RATE\<close>.
\<close>

definition admin_broadcast_flow :: "env \<Rightarrow> int \<Rightarrow> message \<Rightarrow> (int \<times> bool option) list \<Rightarrow> nat \<times> nat \<times> effect list" where
  "admin_broadcast_flow e rate m users =
     (let (n, f, tr) = simple_loop e m (simple_delay e rate) (resolve_recipients users) (0, 0, [])
      in (n, f, tr @ [Report n f]))"

text \<open>
  The delay requested between the first and the last transport call of a
  trace: the sleeps that come after some attempt and before a later one.
\<close>

fun is_attempt :: "effect \<Rightarrow> bool" where
  "is_attempt (SendMessage u t) = True"
| "is_attempt (CopyMessage u c i) = True"
| "is_attempt e = False"

fun sleep_of :: "effect \<Rightarrow> rat" where
  "sleep_of (Sleep d) = d"
| "sleep_of e = 0"

definition sleeps :: "effect list \<Rightarrow> rat" where
  "sleeps tr = sum_list (map sleep_of tr)"

definition delay_between :: "effect list \<Rightarrow> rat" where
  "delay_between tr =
     sleeps (rev (dropWhile (\<lambda>x. \<not> is_attempt x) (rev (dropWhile (\<lambda>x. \<not> is_attempt x) tr))))"

section \<open>CSV export of the history\<close>

text \<open>\<^verbatim>\<open>str(n)\<close> for an integer.\<close>

fun str_nat :: "nat \<Rightarrow> string" where
  "str_nat n =
     (if n < 10 then [char_of (48 + n)]
      else str_nat (n div 10) @ [char_of (48 + n mod 10)])"

declare str_nat.simps [simp del]

definition str_int :: "int \<Rightarrow> string" where
  "str_int i = (if i < 0 then CHR ''-'' # str_nat (nat (- i)) else str_nat (nat i))"

text \<open>\<^verbatim>\<open>s.replace(a, b)\<close> for one-character strings \<open>a\<close> and \<open>b\<close>.\<close>

definition replace :: "char \<Rightarrow> char \<Rightarrow> string \<Rightarrow> string" where
  "replace a b s = map (\<lambda>c. if c = a then b else c) s"

text \<open>The free-text fields of a line as \<^verbatim>\<open>export_cb\<close> writes them.\<close>

definition csv_type :: "history_row \<Rightarrow> string" where
  "csv_type r = replace CHR '','' CHR '' '' (or_empty (row_type r))"

definition csv_media_type :: "history_row \<Rightarrow> string" where
  "csv_media_type r = replace CHR '','' CHR '' '' (or_empty (media_type r))"

definition csv_message_text :: "history_row \<Rightarrow> string" where
  "csv_message_text r =
     replace (CHR 0x0D) CHR '' ''
       (replace (CHR 0x0A) CHR '' ''
          (replace (CHR 0x22) (CHR 0x27) (or_empty (message_text r))))"

text \<open>
  One line, without its newline. \<open>strftime\<close> formats \<^verbatim>\<open>created_at\<close> as
  \<^verbatim>\<open>%Y-%m-%d %H:%M:%S\<close>.
\<close>

definition csv_line :: "(int \<Rightarrow> string) \<Rightarrow> history_row \<Rightarrow> string" where
  "csv_line strftime r =
     str_int (row_id r) @ '','' @
     [CHR 0x22] @ strftime (created_at r) @ [CHR 0x22] @ '','' @
     str_int (admin_id r) @ '','' @
     csv_type r @ '','' @
     csv_media_type r @ '','' @
     str_int (sent_count r) @ '','' @ str_int (total_users r) @ '','' @
     [CHR 0x22] @ csv_message_text r @ [CHR 0x22]"

definition csv_header :: string where
  "csv_header = ''id,created_at,admin_id,type,media_type,sent_count,total_users,message_text''"

text \<open>
  The query of \<^verbatim>\<open>export_cb\<close> on the history table at time \<open>now\<close>: the
  \<^verbatim>\<open>WHERE\<close> clause chosen by \<open>kind\<close>, then \<^verbatim>\<open>ORDER BY created_at DESC\<close>.
\<close>

definition export_where :: "int \<Rightarrow> string \<Rightarrow> history_row \<Rightarrow> bool" where
  "export_where now kind r =
     (if kind = ''last7'' then created_at r > now - 7 * 86400
      else if kind = ''last30'' then created_at r > now - 30 * 86400
      else True)"

definition export_title :: "string \<Rightarrow> string" where
  "export_title kind =
     (if kind = ''last7'' then ''last7'' else if kind = ''last30'' then ''last30'' else ''all'')"

definition export_rows :: "int \<Rightarrow> string \<Rightarrow> history_row list \<Rightarrow> history_row list" where
  "export_rows now kind tbl = rev (sort_key created_at (filter (export_where now kind) tbl))"

text \<open>The \<^verbatim>\<open>for r in rows\<close> loop writing to the buffer \<^verbatim>\<open>sio\<close>.\<close>

fun write_rows :: "(int \<Rightarrow> string) \<Rightarrow> history_row list \<Rightarrow> string \<Rightarrow> string" where
  "write_rows strftime [] sio = sio"
| "write_rows strftime (r # rs) sio =
     write_rows strftime rs (sio @ csv_line strftime r @ [CHR 0x0A])"

text \<open>
  What \<^verbatim>\<open>export_cb\<close> answers: the panel menu for \<^verbatim>\<open>exp:back\<close>, the reply that
  nothing was found, or the document with its file name and content.
\<close>

datatype export_result =
    PanelMenu
  | NothingFound
  | Document string string

definition export_cb :: "(int \<Rightarrow> string) \<Rightarrow> int \<Rightarrow> string \<Rightarrow> history_row list \<Rightarrow> export_result" where
  "export_cb strftime now kind tbl =
     (if kind = ''back'' then PanelMenu
      else
        (let rows = export_rows now kind tbl
         in if rows = [] then NothingFound
            else Document (''broadcast-history-'' @ export_title kind @ ''.csv'')
                   (write_rows strftime rows (csv_header @ [CHR 0x0A]))))"

section \<open>Example inputs\<close>

text \<open>
  A text message and a photo with a caption; the state that
  \<^verbatim>\<open>process_broadcast\<close> registers; a world in which operator 7 has confirmed
  a broadcast; a transport that fails \<^verbatim>\<open>send_message\<close> for recipient 2 and every
  \<^verbatim>\<open>copy_message\<close> and whose progress edits go through; a users table whose
  eligible recipients are 1, 2 and 5. The float quotient of the example is the
  exact quotient: it is used at the rate 20 only, where \<^verbatim>\<open>60.0 / 20\<close> is the
  float 3.
\<close>

definition ex_msg :: message where
  "ex_msg = \<lparr>content_type = ''text'', msg_text = Some ''hi'', msg_caption = None,
             chat_id = 5, message_id = 9\<rparr>"

definition ex_photo :: message where
  "ex_photo = \<lparr>content_type = ''photo'', msg_text = None, msg_caption = Some ''sale'',
               chat_id = 5, message_id = 9\<rparr>"

definition ex_state :: pro_state where
  "ex_state = \<lparr>step = Some ''confirm'', msg = Some ex_msg,
               paused = Some False, stopped = Some False\<rparr>"

definition ex_world :: world where
  "ex_world = \<lparr>pro_states = [7 \<mapsto> 0], heap = (\<lambda>r. ex_state), next_ref = 1,
               broadcast_history = [], history_seq = 1\<rparr>"

definition ex_env :: env where
  "ex_env = \<lparr>send_message_raises = (\<lambda>u. u = 2), copy_message_raises = (\<lambda>u. True),
             edit_message_text_raises = (\<lambda>n f. False), utcnow = 1000,
             float_quot = (\<lambda>r. 60 / of_int r)\<rparr>"

definition ex_users :: "(int \<times> bool option) list" where
  "ex_users = [(1, Some False), (2, Some False), (3, Some True), (4, None), (5, Some False)]"

text \<open>
  Handler runs per \<^verbatim>\<open>await\<close> of the worker: nothing during the three awaits
  before the loop and during the first iteration; the operator presses stop
  while the second recipient is being sent to.
\<close>

definition ex_stop_sched :: "event list list" where
  "ex_stop_sched = [[], [], [], [], [], [Callback ''stop'' 7]]"

text \<open>
  The operator cancels while the worker posts its control message, before the
  loop looks at the first recipient.
\<close>

definition ex_cancel_sched :: "event list list" where
  "ex_cancel_sched = [[], [], [Confirm ''pro:cancel'' 7]]"

text \<open>
  The operator pauses while the worker posts its control message and presses
  stop during the first sleep of the paused wait; nothing happens afterwards.
\<close>

definition ex_pause_stop_sched :: "event list list" where
  "ex_pause_stop_sched = [[], [], [Callback ''pause'' 7], [Callback ''stop'' 7]]"

text \<open>The same pause, followed by a resume during the second sleep of the wait.\<close>

definition ex_pause_resume_sched :: "event list list" where
  "ex_pause_resume_sched = [[], [], [Callback ''pause'' 7], [], [Callback ''resume'' 7]]"

text \<open>
  The operator pauses while the first recipient is being sent to and resumes
  during the second sleep of the paused wait.
\<close>

definition ex_pause_mid_sched :: "event list list" where
  "ex_pause_mid_sched = [[], [], [], [Callback ''pause'' 7], [], [], [Callback ''resume'' 7]]"

text \<open>
  The operator pauses before the first iteration, starts a new broadcast
  during the first sleep of the paused wait and presses resume afterwards.
\<close>

definition ex_pause_new_sched :: "event list list" where
  "ex_pause_new_sched =
     [[], [], [Callback ''pause'' 7], [Callback ''new'' 7], [Callback ''resume'' 7]]"

text \<open>
  The operator presses stop while the second recipient is being sent to and
  starts a new broadcast right after, during the same \<^verbatim>\<open>await\<close>.
\<close>

definition ex_stop_new_sched :: "event list list" where
  "ex_stop_new_sched = [[], [], [], [], [], [Callback ''stop'' 7, Callback ''new'' 7]]"

text \<open>The state that \<^verbatim>\<open>pro_callback\<close> registers for \<^verbatim>\<open>pro:new\<close>.\<close>

definition wait_msg_state :: pro_state where
  "wait_msg_state = \<lparr>step = Some ''wait_msg'', msg = None, paused = None, stopped = None\<rparr>"

text \<open>The progress edits of a trace that raised, by the counters they render.\<close>

fun raising_edits :: "env \<Rightarrow> effect list \<Rightarrow> (nat \<times> nat) list" where
  "raising_edits e [] = []"
| "raising_edits e (EditMessageText c n t f # es) =
     (if edit_message_text_raises e n f then (n, f) # raising_edits e es
      else raising_edits e es)"
| "raising_edits e (x # es) = raising_edits e es"

text \<open>The effects of the three statements after the loop.\<close>

fun is_closing :: "effect \<Rightarrow> bool" where
  "is_closing (HistoryInsert r) = True"
| "is_closing (Tally c n t f) = True"
| "is_closing (PopState a) = True"
| "is_closing x = False"

text \<open>The transport of \<open>ex_env\<close> with the control message deleted: every edit raises.\<close>

definition ex_deleted_env :: env where
  "ex_deleted_env = ex_env\<lparr>edit_message_text_raises := (\<lambda>n f. True)\<rparr>"

text \<open>
  Two history rows, the older one with a comma in its text, and the newer one
  with a double quote and a line feed in its text and a comma in its media
  type.
\<close>

definition ex_row :: history_row where
  "ex_row = \<lparr>row_id = 1, created_at = 1000, admin_id = 7, row_type = Some ''pro'',
             media_type = Some ''text'', sent_count = 1, total_users = 2,
             message_text = Some ''a,b''\<rparr>"

definition ex_row2 :: history_row where
  "ex_row2 = \<lparr>row_id = 2, created_at = 1500, admin_id = 7, row_type = Some ''pro'',
              media_type = Some ''a,v'', sent_count = 0, total_users = 2,
              message_text = Some [CHR ''x'', CHR 0x22, CHR 0x0A, CHR ''y'']\<rparr>"

section \<open>Properties of the delivery loop\<close>

lemma attempts_append: "attempts (xs @ ys) = attempts xs @ attempts ys"
  by (induction xs rule: attempts.induct) simp_all

lemma inserts_append: "inserts (xs @ ys) = inserts xs @ inserts ys"
  by (induction xs rule: inserts.induct) simp_all

lemma suspend_fields:
  "sent (suspend s) = sent s" "failed (suspend s) = failed s" "trace (suspend s) = trace s"
  by (simp_all add: suspend_def split: list.splits)

lemma emit_fields:
  "sent (emit x s) = sent s" "failed (emit x s) = failed s" "trace (emit x s) = trace s @ [x]"
  "shared (emit x s) = shared s" "sched (emit x s) = sched s"
  by (simp_all add: emit_def)

lemma attempts_send_call: "attempts [send_call m u] = [u]"
  by (simp add: send_call_def)

lemma inserts_send_call: "inserts [send_call m u] = []"
  by (simp add: send_call_def)

lemma bc_send_sent: "sent (bc_send e m u s) = (if send_raises e m u then sent s else Suc (sent s))"
  by (simp add: bc_send_def Let_def suspend_fields emit_fields)

lemma bc_send_failed: "failed (bc_send e m u s) = (if send_raises e m u then Suc (failed s) else failed s)"
  by (simp add: bc_send_def Let_def suspend_fields emit_fields)

lemma bc_send_trace:
  "trace (bc_send e m u s) =
     trace s @ send_call m u # (if send_raises e m u then [LogWarning u] else []) @ [Sleep pro_delay]"
  by (simp add: bc_send_def Let_def suspend_fields emit_fields)

lemma bc_send_attempts: "attempts (trace (bc_send e m u s)) = attempts (trace s) @ [u]"
  by (simp add: bc_send_trace attempts_append send_call_def)

subsection \<open>The paused wait adds sleeps of one second only\<close>

lemma wait_paused_trace:
  "wait_paused r w ts tr = Some (w', ts', tr') \<Longrightarrow> \<exists>j. tr' = tr @ replicate j (Sleep 1)"
proof (induction ts arbitrary: w tr)
  case Nil
  then have "tr' = tr @ replicate 0 (Sleep 1)" by (simp split: if_splits)
  then show ?case ..
next
  case (Cons t ts)
  show ?case
  proof (cases "truthy (paused (heap w r))")
    case True
    with Cons.prems have "wait_paused r (run_tick t w) ts (tr @ [Sleep 1]) = Some (w', ts', tr')"
      by simp
    from Cons.IH[OF this] obtain j where "tr' = (tr @ [Sleep 1]) @ replicate j (Sleep 1)" ..
    then have "tr' = tr @ replicate (Suc j) (Sleep 1)" by simp
    then show ?thesis ..
  next
    case False
    with Cons.prems have "tr' = tr @ replicate 0 (Sleep 1)" by simp
    then show ?thesis ..
  qed
qed

lemma attempts_polls: "attempts (replicate j (Sleep 1)) = []"
  by (induction j) simp_all

lemma inserts_polls: "inserts (replicate j (Sleep 1)) = []"
  by (induction j) simp_all

lemma wait_paused_quiet:
  assumes "wait_paused r w ts tr = Some (w', ts', tr')"
  shows "attempts tr' = attempts tr" and "inserts tr' = inserts tr"
  using wait_paused_trace[OF assms]
  by (auto simp: attempts_append inserts_append attempts_polls inserts_polls)

subsection \<open>One iteration\<close>

lemma bc_body_Inr:
  assumes "bc_body e a m ids u s = Inr s'"
  shows "sent s' = (if send_raises e m u then sent s else Suc (sent s))"
    and "failed s' = (if send_raises e m u then Suc (failed s) else failed s)"
    and "attempts (trace s') = attempts (trace s) @ [u]"
  using assms
  by (auto simp: bc_body_def Let_def bc_send_sent bc_send_failed bc_send_attempts
      suspend_fields emit_fields attempts_append
      dest!: wait_paused_quiet(1) split: option.splits if_splits prod.splits)

lemma bc_body_Inl:
  assumes "bc_body e a m ids u s = Inl (k, s')"
  shows "k \<noteq> Completed"
    and "k \<noteq> Raised \<Longrightarrow> s' = s"
    and "k = Raised \<Longrightarrow> sent s' = (if send_raises e m u then sent s else Suc (sent s))"
    and "k = Raised \<Longrightarrow> failed s' = (if send_raises e m u then Suc (failed s) else failed s)"
    and "k = Raised \<Longrightarrow> attempts (trace s') = attempts (trace s) @ [u]"
  using assms
  by (auto simp: bc_body_def Let_def bc_send_sent bc_send_failed bc_send_attempts
      suspend_fields emit_fields attempts_append
      dest!: wait_paused_quiet(1) split: option.splits if_splits prod.splits)

lemma bc_boundary_counts:
  "bc_boundary e a m ids us s = Some s' \<Longrightarrow>
     sent s' = sent s + length (filter (\<lambda>u. \<not> send_raises e m u) us) \<and>
     failed s' = failed s + length (filter (send_raises e m) us) \<and>
     attempts (trace s') = attempts (trace s) @ us"
proof (induction us arbitrary: s)
  case Nil
  then show ?case by simp
next
  case (Cons u us)
  from Cons.prems obtain s1 where b: "bc_body e a m ids u s = Inr s1"
    and r: "bc_boundary e a m ids us s1 = Some s'"
    by (auto split: sum.splits)
  from Cons.IH[OF r] bc_body_Inr[OF b] show ?case by auto
qed

lemma bc_loop_boundary:
  "bc_boundary e a m ids xs s = Some s1 \<Longrightarrow> bc_loop e a m ids (xs @ ys) s = bc_loop e a m ids ys s1"
  by (induction xs arbitrary: s) (auto split: sum.splits)

lemma bc_loop_reaches:
  "bc_loop e a m ids us s = (k, s') \<Longrightarrow>
     \<exists>xs ys s1. us = xs @ ys \<and> bc_boundary e a m ids xs s = Some s1 \<and>
       (k = Completed \<and> ys = [] \<and> s' = s1 \<or>
        k \<noteq> Completed \<and> (\<exists>u vs. ys = u # vs \<and> bc_body e a m ids u s1 = Inl (k, s')))"
proof (induction us arbitrary: s)
  case Nil
  then show ?case by auto
next
  case (Cons u us)
  show ?case
  proof (cases "bc_body e a m ids u s")
    case (Inl x)
    with Cons.prems have x: "x = (k, s')" by simp
    with Inl bc_body_Inl(1)[of e a m ids u s k s'] have "k \<noteq> Completed" by simp
    with Inl x show ?thesis
      by - (rule exI[of _ "[]"], rule exI[of _ "u # us"], rule exI[of _ s], auto)
  next
    case (Inr s1)
    with Cons.prems have "bc_loop e a m ids us s1 = (k, s')" by simp
    from Cons.IH[OF this] obtain xs ys s2 where
      1: "us = xs @ ys" and 2: "bc_boundary e a m ids xs s1 = Some s2" and
      3: "(k = Completed \<and> ys = [] \<and> s' = s2 \<or>
        k \<noteq> Completed \<and> (\<exists>u vs. ys = u # vs \<and> bc_body e a m ids u s2 = Inl (k, s')))"
      by blast
    from 1 2 3 Inr show ?thesis
      by - (rule exI[of _ "u # xs"], rule exI[of _ ys], rule exI[of _ s2], auto)
  qed
qed

lemma bc_body_Broke:
  assumes "bc_body e a m ids u s = Inl (Broke, s')"
  shows "s' = s"
    and "(case pro_states (shared s) a of None \<Rightarrow> True | Some p \<Rightarrow> truthy (stopped (heap (shared s) p)))"
  using assms
  by (auto simp: bc_body_def Let_def split: option.splits if_splits prod.splits)

lemma bc_start_fields:
  "sent (bc_start m n w ts) = 0" "failed (bc_start m n w ts) = 0"
  "trace (bc_start m n w ts) = [ControlMessage (chat_id m) n]"
  by (simp_all add: bc_start_def Let_def suspend_fields emit_fields)

lemma save_broadcast_history_fields:
  "sent (save_broadcast_history e a m n t s) = sent s"
  "failed (save_broadcast_history e a m n t s) = failed s"
  "trace (save_broadcast_history e a m n t s) = trace s @ [HistoryInsert (new_row e (shared (suspend s)) a m n t)]"
  by (simp_all add: save_broadcast_history_def Let_def suspend_fields emit_fields)

lemma bc_finish_fields:
  "sent (bc_finish e a m t s) = sent s"
  "failed (bc_finish e a m t s) = failed s"
  "trace (bc_finish e a m t s) =
     trace s @ [HistoryInsert (new_row e (shared (suspend s)) a m (sent s) t),
                Tally (chat_id m) (sent s) t (failed s), PopState a]"
  by (simp_all add: bc_finish_def Let_def suspend_fields emit_fields save_broadcast_history_fields)

lemma bc_finish_attempts: "attempts (trace (bc_finish e a m t s)) = attempts (trace s)"
  by (simp add: bc_finish_fields attempts_append)

lemma length_filter_split: "length (filter (\<lambda>u. \<not> P u) us) + length (filter P us) = length us"
  by (induction us) auto

lemma bc_boundary_sum:
  assumes "bc_boundary e a m ids us s = Some s'"
  shows "sent s' + failed s' = sent s + failed s + length us"
  using bc_boundary_counts[OF assms] length_filter_split[of "send_raises e m" us] by simp

subsection \<open>The loop and the whole call\<close>

lemma bc_loop_result:
  assumes "bc_loop e a m ids us s = (k, s')"
  shows "\<exists>xs ys. us = xs @ ys \<and> attempts (trace s') = attempts (trace s) @ xs \<and>
           sent s' + failed s' = sent s + failed s + length xs \<and>
           sent s' = sent s + length (filter (\<lambda>u. \<not> send_raises e m u) xs) \<and>
           (k = Completed \<longrightarrow> ys = [])"
proof -
  from bc_loop_reaches[OF assms] obtain xs ys s1 where
    1: "us = xs @ ys" and 2: "bc_boundary e a m ids xs s = Some s1" and
    3: "(k = Completed \<and> ys = [] \<and> s' = s1 \<or>
        k \<noteq> Completed \<and> (\<exists>u vs. ys = u # vs \<and> bc_body e a m ids u s1 = Inl (k, s')))"
    by blast
  note c = bc_boundary_counts[OF 2] bc_boundary_sum[OF 2]
  from 3 show ?thesis
  proof
    assume "k = Completed \<and> ys = [] \<and> s' = s1"
    with 1 c show ?thesis by auto
  next
    assume "k \<noteq> Completed \<and> (\<exists>u vs. ys = u # vs \<and> bc_body e a m ids u s1 = Inl (k, s'))"
    then obtain u vs where nk: "k \<noteq> Completed" and ys: "ys = u # vs"
      and b: "bc_body e a m ids u s1 = Inl (k, s')" by blast
    show ?thesis
    proof (cases "k = Raised")
      case True
      from bc_body_Inl(3,4,5)[OF b True] c 1 ys nk show ?thesis
        by - (rule exI[of _ "xs @ [u]"], rule exI[of _ vs], auto)
    next
      case False
      from bc_body_Inl(2)[OF b False] c 1 nk show ?thesis
        by - (rule exI[of _ xs], rule exI[of _ ys], auto)
    qed
  qed
qed

lemma run_broadcast_unfold:
  "run_broadcast e a m users w ts =
     (let ids = resolve_recipients users;
          x = bc_loop e a m ids ids (bc_start m (length ids) w ts)
      in if fst x = Completed \<or> fst x = Broke then (fst x, bc_finish e a m (length ids) (snd x)) else x)"
  by (simp add: run_broadcast_def Let_def split: prod.splits)

lemma run_broadcast_result:
  assumes "run_broadcast e a m users w ts = (k, r)"
  shows "\<exists>xs ys. resolve_recipients users = xs @ ys \<and> attempts (trace r) = xs \<and>
           sent r + failed r = length xs \<and>
           sent r = length (filter (\<lambda>u. \<not> send_raises e m u) xs) \<and>
           (k = Completed \<longrightarrow> ys = [])"
proof -
  let ?ids = "resolve_recipients users"
  let ?s0 = "bc_start m (length ?ids) w ts"
  obtain k' s' where l: "bc_loop e a m ?ids ?ids ?s0 = (k', s')" by fastforce
  from assms l have k: "k' = k" and r: "r = s' \<or> r = bc_finish e a m (length ?ids) s'"
    by (auto simp: run_broadcast_unfold Let_def split: if_splits)
  from bc_loop_result[OF l] obtain xs ys where
    "?ids = xs @ ys" "attempts (trace s') = attempts (trace ?s0) @ xs"
    "sent s' + failed s' = sent ?s0 + failed ?s0 + length xs"
    "sent s' = sent ?s0 + length (filter (\<lambda>u. \<not> send_raises e m u) xs)"
    "k' = Completed \<longrightarrow> ys = []" by blast
  with k r show ?thesis
    by - (rule exI[of _ xs], rule exI[of _ ys],
          auto simp: bc_start_fields bc_finish_fields attempts_append)
qed

lemma simple_body_eq:
  "simple_body e m d u (n, f, tr) =
     (if fst (simple_send e m u) then n else n + 1,
      if fst (simple_send e m u) then f + 1 else f,
      tr @ snd (simple_send e m u) @
        ((if fst (simple_send e m u) then [LogWarning u] else []) @
         (if d \<noteq> 0 then [Sleep d] else [])))"
  by (simp add: simple_body_def Let_def split: prod.splits)

lemma simple_loop_step:
  "simple_loop e m d (u # us) (n, f, tr) =
     simple_loop e m d us
       (if fst (simple_send e m u) then n else n + 1,
        if fst (simple_send e m u) then f + 1 else f,
        tr @ snd (simple_send e m u) @
          ((if fst (simple_send e m u) then [LogWarning u] else []) @
           (if d \<noteq> 0 then [Sleep d] else [])))"
  by (simp add: simple_body_eq)

lemma simple_send_attempts:
  "attempts (snd (simple_send e m u)) = [u] \<or> attempts (snd (simple_send e m u)) = [u, u]"
  by (simp add: simple_send_def)

lemma simple_loop_counts:
  "simple_loop e m d us (n, f, tr) = (n', f', tr') \<Longrightarrow>
     n' + f' = n + f + length us \<and>
     f' = f + length (filter (\<lambda>u. fst (simple_send e m u)) us) \<and>
     attempts tr' = attempts tr @ concat (map (\<lambda>u. attempts (snd (simple_send e m u))) us)"
proof (induction us arbitrary: n f tr)
  case Nil
  then show ?case by simp
next
  case (Cons u us)
  from Cons.prems obtain n1 f1 tr1 where
    b: "simple_body e m d u (n, f, tr) = (n1, f1, tr1)"
    and l: "simple_loop e m d us (n1, f1, tr1) = (n', f', tr')"
    by (cases "simple_body e m d u (n, f, tr)") auto
  from b have "n1 + f1 = n + f + 1"
    "f1 = f + (if fst (simple_send e m u) then 1 else 0)"
    "attempts tr1 = attempts tr @ attempts (snd (simple_send e m u))"
    by (auto simp: simple_body_eq attempts_append split: if_splits)
  with Cons.IH[OF l] show ?case by simp
qed

lemma bc_loop_Broke:
  assumes "bc_loop e a m ids us s = (Broke, s')"
  shows "\<exists>xs. bc_boundary e a m ids xs s = Some s' \<and>
           (case pro_states (shared s') a of None \<Rightarrow> True
            | Some p \<Rightarrow> truthy (stopped (heap (shared s') p)))"
proof -
  from bc_loop_reaches[OF assms] obtain xs u s1 where
    2: "bc_boundary e a m ids xs s = Some s1" and b: "bc_body e a m ids u s1 = Inl (Broke, s')"
    by auto
  from bc_body_Broke[OF b] 2 show ?thesis by auto
qed

lemma take_length_append: "xs @ ys = zs \<Longrightarrow> take (length xs) zs = xs"
  by auto

lemma ex_ids: "resolve_recipients ex_users = [1, 2, 5]"
  by (simp add: resolve_recipients_def ex_users_def)

subsection \<open>The history table is written by the closing statements only\<close>

lemma handle_store: "broadcast_history (handle ev w) = broadcast_history w \<and> history_seq (handle ev w) = history_seq w"
  by (cases ev)
     (auto simp: pro_callback_def manage_broadcast_def process_broadcast_def pro_confirm_cb_def
        pro_states_set_def pro_states_pop_def pro_states_get_def split: option.splits sum.splits)

lemma run_tick_store: "broadcast_history (run_tick t w) = broadcast_history w \<and> history_seq (run_tick t w) = history_seq w"
  unfolding run_tick_def by (induction t arbitrary: w) (simp_all add: handle_store)

lemma suspend_store:
  "broadcast_history (shared (suspend s)) = broadcast_history (shared s)"
  "history_seq (shared (suspend s)) = history_seq (shared s)"
  by (simp_all add: suspend_def run_tick_store split: list.splits)

lemma wait_paused_store:
  "wait_paused p w ts tr = Some (w', ts', tr') \<Longrightarrow>
     broadcast_history w' = broadcast_history w \<and> history_seq w' = history_seq w"
  by (induction ts arbitrary: w tr) (auto simp: run_tick_store split: if_splits)

lemma bc_send_store:
  "broadcast_history (shared (bc_send e m u s)) = broadcast_history (shared s)"
  "history_seq (shared (bc_send e m u s)) = history_seq (shared s)"
  by (simp_all add: bc_send_def Let_def suspend_store emit_fields)

lemma bc_send_inserts: "inserts (trace (bc_send e m u s)) = inserts (trace s)"
  by (simp add: bc_send_trace inserts_append send_call_def)

lemma wait_paused_inert:
  assumes "wait_paused p w ts tr = Some (w', ts', tr')"
  shows "broadcast_history w' = broadcast_history w \<and> history_seq w' = history_seq w \<and>
         inserts tr' = inserts tr"
  using wait_paused_store[OF assms] wait_paused_quiet(2)[OF assms] by simp

lemma bc_body_store:
  assumes "bc_body e a m ids u s = Inr s' \<or> bc_body e a m ids u s = Inl (k, s')"
  shows "broadcast_history (shared s') = broadcast_history (shared s)"
    and "history_seq (shared s') = history_seq (shared s)"
    and "inserts (trace s') = inserts (trace s)"
  using assms
  by (auto simp: bc_body_def Let_def bc_send_store bc_send_inserts suspend_store suspend_fields
        emit_fields inserts_append
      dest!: wait_paused_inert split: option.splits if_splits prod.splits)

lemma bc_boundary_store:
  "bc_boundary e a m ids us s = Some s' \<Longrightarrow>
     broadcast_history (shared s') = broadcast_history (shared s) \<and>
     history_seq (shared s') = history_seq (shared s) \<and>
     inserts (trace s') = inserts (trace s)"
proof (induction us arbitrary: s)
  case Nil
  then show ?case by simp
next
  case (Cons u us)
  from Cons.prems obtain s1 where b: "bc_body e a m ids u s = Inr s1"
    and r: "bc_boundary e a m ids us s1 = Some s'"
    by (auto split: sum.splits)
  from Cons.IH[OF r] bc_body_store[of e a m ids u s s1] b show ?case by simp
qed

lemma bc_loop_store:
  assumes "bc_loop e a m ids us s = (k, s')"
  shows "broadcast_history (shared s') = broadcast_history (shared s) \<and>
     history_seq (shared s') = history_seq (shared s) \<and>
     inserts (trace s') = inserts (trace s)"
proof -
  from bc_loop_reaches[OF assms] obtain xs ys s1 where
    2: "bc_boundary e a m ids xs s = Some s1" and
    3: "(k = Completed \<and> ys = [] \<and> s' = s1 \<or>
        k \<noteq> Completed \<and> (\<exists>u vs. ys = u # vs \<and> bc_body e a m ids u s1 = Inl (k, s')))"
    by blast
  from 3 bc_boundary_store[OF 2] show ?thesis
    using bc_body_store[where e = e and a = a and m = m and ids = ids and s = s1 and s' = s' and k = k]
    by auto
qed

lemma bc_start_store:
  "broadcast_history (shared (bc_start m n w ts)) = broadcast_history w"
  "history_seq (shared (bc_start m n w ts)) = history_seq w"
  by (simp_all add: bc_start_def Let_def suspend_store emit_fields)

lemma new_row_seq: "history_seq w' = history_seq w \<Longrightarrow> new_row e w' a m n t = new_row e w a m n t"
  by (simp add: new_row_def)

lemma bc_finish_store:
  "broadcast_history (shared (bc_finish e a m t s)) =
     broadcast_history (shared s) @ [new_row e (shared s) a m (sent s) t]"
  by (simp add: bc_finish_def save_broadcast_history_def Let_def suspend_store emit_fields
        pro_states_pop_def new_row_seq[OF suspend_store(2)])

lemma bc_finish_inserts:
  "inserts (trace (bc_finish e a m t s)) = inserts (trace s) @ [new_row e (shared s) a m (sent s) t]"
  by (simp add: bc_finish_fields inserts_append new_row_seq[OF suspend_store(2)])

subsection \<open>Leaving the loop at a boundary\<close>

lemma bc_body_break:
  assumes "case pro_states (shared s) a of None \<Rightarrow> True
           | Some p \<Rightarrow> truthy (stopped (heap (shared s) p))"
  shows "bc_body e a m ids u s = Inl (Broke, s)"
  using assms by (auto simp: bc_body_def split: option.splits)

lemma run_broadcast_break:
  assumes ids: "ids = resolve_recipients users"
    and s0: "s0 = bc_start m (length ids) w ts"
    and n: "n \<le> length ids"
    and b: "bc_boundary e a m ids (take n ids) s0 = Some s"
    and c: "case pro_states (shared s) a of None \<Rightarrow> True
            | Some p \<Rightarrow> truthy (stopped (heap (shared s) p))"
  shows "run_broadcast e a m users w ts =
           (if n < length ids then Broke else Completed, bc_finish e a m (length ids) s)"
proof -
  have "bc_loop e a m ids (take n ids @ drop n ids) s0 = bc_loop e a m ids (drop n ids) s"
    using b by (rule bc_loop_boundary)
  then have l: "bc_loop e a m ids ids s0 = bc_loop e a m ids (drop n ids) s" by simp
  have "bc_loop e a m ids (drop n ids) s = (if n < length ids then Broke else Completed, s)"
  proof (cases "drop n ids")
    case Nil
    with n show ?thesis by simp
  next
    case (Cons u vs)
    then have "n < length ids" by (cases "n < length ids") simp_all
    with Cons bc_body_break[OF c, of e m ids u] show ?thesis by simp
  qed
  with l ids s0 show ?thesis
    by (simp add: run_broadcast_unfold Let_def)
qed

lemma bc_boundary_start:
  assumes "bc_boundary e a m ids us (bc_start m t w ts) = Some s"
  shows "sent s = length (filter (\<lambda>u. \<not> send_raises e m u) us)"
    and "sent s + failed s = length us"
    and "attempts (trace s) = us"
    and "inserts (trace s) = []"
    and "broadcast_history (shared s) = broadcast_history w"
    and "history_seq (shared s) = history_seq w"
  using bc_boundary_counts[OF assms] bc_boundary_sum[OF assms] bc_boundary_store[OF assms]
  by (simp_all add: bc_start_fields bc_start_store)

lemma stored_text_length: "length (stored_text m) \<le> 4000"
  by (simp add: stored_text_def)

subsection \<open>Failure isolation\<close>

lemma run_broadcast_failed_count:
  assumes "run_broadcast e a m users w ts = (k, r)"
  shows "failed r = length (filter (send_raises e m) (attempts (trace r)))"
proof -
  from run_broadcast_result[OF assms] have
    "sent r + failed r = length (attempts (trace r))"
    "sent r = length (filter (\<lambda>u. \<not> send_raises e m u) (attempts (trace r)))"
    by auto
  with length_filter_split[of "send_raises e m" "attempts (trace r)"] show ?thesis by simp
qed

subsection \<open>The paused wait\<close>

lemma handle_stop_paused:
  "paused (heap (snd (pro_callback ''stop'' a w)) r) = paused (heap w r)"
  by (simp add: pro_callback_def manage_broadcast_def split: option.splits)

lemma wait_paused_ignores_stop:
  assumes "truthy (paused (heap w r))"
    and "list_all (list_all (\<lambda>ev. ev \<in> range (Callback ''stop''))) ts"
  shows "wait_paused r w ts tr = None"
  using assms
proof (induction ts arbitrary: w tr)
  case Nil
  then show ?case by simp
next
  case (Cons t ts)
  have "list_all (\<lambda>ev. ev \<in> range (Callback ''stop'')) t \<Longrightarrow>
      paused (heap (fold handle t w') r) = paused (heap w' r)" for w'
    by (induction t arbitrary: w') (auto simp: handle_stop_paused)
  with Cons.prems have "truthy (paused (heap (run_tick t w) r))"
    by (simp add: run_tick_def)
  with Cons show ?case by simp
qed

subsection \<open>Starting a broadcast while one is in flight\<close>

lemma handle_unreachable:
  assumes "\<forall>b. pro_states w b \<noteq> Some p" and "p < next_ref w"
  shows "(\<forall>b. pro_states (handle ev w) b \<noteq> Some p) \<and> p < next_ref (handle ev w) \<and>
         heap (handle ev w) p = heap w p"
proof (cases ev)
  case (Callback act a)
  with assms show ?thesis
    by (auto simp: pro_callback_def manage_broadcast_def pro_states_set_def split: option.splits)
next
  case (Incoming m a)
  with assms show ?thesis
    by (auto simp: process_broadcast_def pro_states_set_def split: option.splits)
next
  case (Confirm cdata a)
  with assms show ?thesis
    by (auto simp: pro_confirm_cb_def pro_states_pop_def split: option.splits)
qed

lemma run_tick_unreachable:
  assumes "\<forall>b. pro_states w b \<noteq> Some p" and "p < next_ref w"
  shows "(\<forall>b. pro_states (run_tick t w) b \<noteq> Some p) \<and> p < next_ref (run_tick t w) \<and>
         heap (run_tick t w) p = heap w p"
  using assms unfolding run_tick_def
proof (induction t arbitrary: w)
  case Nil
  then show ?case by simp
next
  case (Cons ev t)
  from handle_unreachable[OF Cons.prems, of ev]
  have h: "\<forall>b. pro_states (handle ev w) b \<noteq> Some p" "p < next_ref (handle ev w)"
    "heap (handle ev w) p = heap w p" by blast+
  from Cons.IH[OF h(1,2)] h(3) show ?case by simp
qed

lemma wait_paused_unreachable:
  assumes "truthy (paused (heap w p))" and "\<forall>b. pro_states w b \<noteq> Some p" and "p < next_ref w"
  shows "wait_paused p w ts tr = None"
  using assms
proof (induction ts arbitrary: w tr)
  case Nil
  then show ?case by simp
next
  case (Cons t ts)
  from run_tick_unreachable[OF Cons.prems(2,3), of t] Cons.prems(1)
  have "truthy (paused (heap (run_tick t w) p))" "\<forall>b. pro_states (run_tick t w) b \<noteq> Some p"
    "p < next_ref (run_tick t w)" by simp_all
  from Cons.IH[OF this] Cons.prems(1) show ?case by simp
qed

lemma wait_paused_not_paused:
  "\<not> truthy (paused (heap w r)) \<Longrightarrow> wait_paused r w ts tr = Some (w, ts, tr)"
  by (cases ts) simp_all

lemma bc_body_attempts:
  assumes "pro_states (shared s) a = Some p"
    and "\<not> truthy (stopped (heap (shared s) p))"
    and "\<not> truthy (paused (heap (shared s) p))"
  shows "\<exists>s'. (bc_body e a m ids u s = Inr s' \<or> bc_body e a m ids u s = Inl (Raised, s')) \<and>
           attempts (trace s') = attempts (trace s) @ [u]"
proof -
  from assms have "\<exists>s'. bc_body e a m ids u s = Inr s' \<or> bc_body e a m ids u s = Inl (Raised, s')"
    by (simp add: bc_body_def wait_paused_not_paused Let_def)
  then obtain s' where s': "bc_body e a m ids u s = Inr s' \<or> bc_body e a m ids u s = Inl (Raised, s')"
    by blast
  then have "attempts (trace s') = attempts (trace s) @ [u]"
    using bc_body_Inr(3)[of e a m ids u s s'] bc_body_Inl(5)[of e a m ids u s Raised s'] by blast
  with s' show ?thesis by blast
qed

subsection \<open>A progress edit that raises\<close>

lemma raising_edits_append:
  "raising_edits e (xs @ ys) = raising_edits e xs @ raising_edits e ys"
  by (induction e xs rule: raising_edits.induct) simp_all

lemma bc_send_quiet:
  "raising_edits e (trace (bc_send e m u s)) = raising_edits e (trace s)"
  "filter is_closing (trace (bc_send e m u s)) = filter is_closing (trace s)"
  by (simp_all add: bc_send_trace raising_edits_append send_call_def)

lemma wait_paused_calm:
  assumes "wait_paused r w ts tr = Some (w', ts', tr')"
  shows "raising_edits e tr' = raising_edits e tr \<and>
         filter is_closing tr' = filter is_closing tr"
proof -
  have "raising_edits e (replicate j (Sleep 1)) = []"
    "filter is_closing (replicate j (Sleep 1)) = []" for j
    by (induction j) simp_all
  with wait_paused_trace[OF assms] show ?thesis
    by (auto simp: raising_edits_append)
qed

lemma bc_body_quiet:
  assumes "bc_body e a m ids u s = Inr s'"
  shows "raising_edits e (trace s') = raising_edits e (trace s)"
    and "filter is_closing (trace s') = filter is_closing (trace s)"
  using assms
  by (auto simp: bc_body_def Let_def bc_send_quiet suspend_fields emit_fields raising_edits_append
      dest!: wait_paused_calm[where e = e] split: option.splits if_splits prod.splits)

lemma bc_body_Raised:
  assumes "bc_body e a m ids u s = Inl (Raised, s')"
  shows "raising_edits e (trace s') = raising_edits e (trace s) @ [(sent s', failed s')]"
    and "filter is_closing (trace s') = filter is_closing (trace s)"
    and "trace s' \<noteq> []"
    and "last (trace s') = EditMessageText (chat_id m) (sent s') (length ids) (failed s')"
    and "edit_message_text_raises e (sent s') (failed s')"
  using assms
  by (auto simp: bc_body_def Let_def bc_send_quiet suspend_fields emit_fields raising_edits_append
      dest!: wait_paused_calm[where e = e] split: option.splits if_splits prod.splits)

lemma bc_boundary_quiet:
  "bc_boundary e a m ids us s = Some s' \<Longrightarrow>
     raising_edits e (trace s') = raising_edits e (trace s) \<and>
     filter is_closing (trace s') = filter is_closing (trace s)"
proof (induction us arbitrary: s)
  case Nil
  then show ?case by simp
next
  case (Cons u us)
  from Cons.prems obtain s1 where b: "bc_body e a m ids u s = Inr s1"
    and r: "bc_boundary e a m ids us s1 = Some s'"
    by (auto split: sum.splits)
  from Cons.IH[OF r] bc_body_quiet[OF b] show ?case by simp
qed

lemma bc_loop_edits:
  assumes "bc_loop e a m ids us s = (k, s')"
  shows "filter is_closing (trace s') = filter is_closing (trace s)"
    and "k \<noteq> Raised \<Longrightarrow> raising_edits e (trace s') = raising_edits e (trace s)"
    and "k = Raised \<Longrightarrow>
           raising_edits e (trace s') = raising_edits e (trace s) @ [(sent s', failed s')] \<and>
           trace s' \<noteq> [] \<and>
           last (trace s') = EditMessageText (chat_id m) (sent s') (length ids) (failed s') \<and>
           edit_message_text_raises e (sent s') (failed s')"
proof -
  from bc_loop_reaches[OF assms] obtain xs ys s1 where
    2: "bc_boundary e a m ids xs s = Some s1" and
    3: "(k = Completed \<and> ys = [] \<and> s' = s1 \<or>
        k \<noteq> Completed \<and> (\<exists>u vs. ys = u # vs \<and> bc_body e a m ids u s1 = Inl (k, s')))"
    by blast
  note q = bc_boundary_quiet[OF 2]
  show "filter is_closing (trace s') = filter is_closing (trace s)"
    using 3 q bc_body_Raised(2)[of e a m ids _ s1 s'] bc_body_Inl(2)[of e a m ids _ s1 k s']
    by (cases "k = Raised") auto
  show "raising_edits e (trace s') = raising_edits e (trace s)" if "k \<noteq> Raised"
    using 3 q that bc_body_Inl(2)[of e a m ids _ s1 k s'] by auto
  show "raising_edits e (trace s') = raising_edits e (trace s) @ [(sent s', failed s')] \<and>
           trace s' \<noteq> [] \<and>
           last (trace s') = EditMessageText (chat_id m) (sent s') (length ids) (failed s') \<and>
           edit_message_text_raises e (sent s') (failed s')" if "k = Raised"
    using 3 q that bc_body_Raised[of e a m ids _ s1 s'] by auto
qed

lemma bc_start_quiet:
  "raising_edits e (trace (bc_start m n w ts)) = []"
  "filter is_closing (trace (bc_start m n w ts)) = []"
  by (simp_all add: bc_start_fields)

section \<open>Properties of the CSV export\<close>

lemma write_rows_concat:
  "write_rows f rs sio = sio @ concat (map (\<lambda>r. csv_line f r @ [CHR 0x0A]) rs)"
  by (induction rs arbitrary: sio) simp_all

lemma export_rows_empty: "(export_rows now kind tbl = []) = (filter (export_where now kind) tbl = [])"
proof -
  have "length (export_rows now kind tbl) = length (filter (export_where now kind) tbl)"
    by (simp add: export_rows_def)
  then show ?thesis by (metis length_0_conv)
qed

lemma export_rows_mset: "mset (export_rows now kind tbl) = mset (filter (export_where now kind) tbl)"
  by (simp add: export_rows_def)

lemma export_rows_newest_first: "sorted (rev (map created_at (export_rows now kind tbl)))"
  by (simp add: export_rows_def rev_map[symmetric])

lemma replace_removes: "a \<noteq> b \<Longrightarrow> a \<notin> set (replace a b s)"
  by (auto simp: replace_def)

lemma replace_keeps_out: "c \<notin> set s \<Longrightarrow> c \<noteq> b \<Longrightarrow> c \<notin> set (replace a b s)"
  by (auto simp: replace_def)

lemma replace_keeps_in: "c \<noteq> a \<Longrightarrow> c \<noteq> b \<Longrightarrow>
    filter (\<lambda>x. x = c) (replace a b s) = filter (\<lambda>x. x = c) s"
  by (induction s) (auto simp: replace_def)

lemma length_replace: "length (replace a b s) = length s"
  by (simp add: replace_def)

lemma csv_message_text_clean:
  "CHR 0x22 \<notin> set (csv_message_text r)"
  "CHR 0x0A \<notin> set (csv_message_text r)"
  "CHR 0x0D \<notin> set (csv_message_text r)"
  unfolding csv_message_text_def
  by (intro replace_keeps_out replace_removes; simp)+

lemma csv_message_text_commas:
  "filter (\<lambda>x. x = CHR '','') (csv_message_text r) =
   filter (\<lambda>x. x = CHR '','') (or_empty (message_text r))"
  by (simp add: csv_message_text_def replace_keeps_in)

section \<open>Properties of the requested delays\<close>

lemma sleeps_append: "sleeps (xs @ ys) = sleeps xs + sleeps ys"
  by (simp add: sleeps_def)

lemma attempts_Nil_iff: "(attempts tr = []) = (\<forall>x\<in>set tr. \<not> is_attempt x)"
  by (induction tr rule: attempts.induct) simp_all

lemma sleeps_attempts: "list_all is_attempt cs \<Longrightarrow> sleeps cs = 0"
proof (induction cs)
  case Nil
  then show ?case by (simp add: sleeps_def)
next
  case (Cons c cs)
  then show ?case by (cases c) (simp_all add: sleeps_def)
qed

lemma dropWhile_quiet: "attempts tr = [] \<Longrightarrow> dropWhile (\<lambda>x. \<not> is_attempt x) tr = []"
  by (simp add: attempts_Nil_iff)

text \<open>a block of transport calls followed by effects that are none\<close>

lemma after_calls:
  assumes cs: "cs \<noteq> []" "list_all is_attempt cs" and qs: "attempts qs = []"
  shows "sleeps (dropWhile (\<lambda>x. \<not> is_attempt x) (tr @ cs @ qs)) =
           sleeps (dropWhile (\<lambda>x. \<not> is_attempt x) tr) + sleeps qs"
    and "delay_between (tr @ cs @ qs) = sleeps (dropWhile (\<lambda>x. \<not> is_attempt x) tr)"
proof -
  let ?N = "\<lambda>x. \<not> is_attempt x"
  from cs obtain c cs' where c: "cs = c # cs'" "is_attempt c" by (cases cs) auto
  from cs obtain d ds where d: "rev cs = d # ds" "is_attempt d"
    by (cases "rev cs") (auto simp: list_all_iff)
  have D: "dropWhile ?N (tr @ cs @ qs) = dropWhile ?N tr @ cs @ qs"
    using c by (simp add: dropWhile_append)
  show "sleeps (dropWhile ?N (tr @ cs @ qs)) = sleeps (dropWhile ?N tr) + sleeps qs"
    by (simp add: D sleeps_append sleeps_attempts[OF cs(2)])
  have "\<forall>x\<in>set (rev qs). ?N x" using qs by (simp add: attempts_Nil_iff)
  then have "dropWhile ?N (rev qs @ rev cs @ rev (dropWhile ?N tr)) =
      rev cs @ rev (dropWhile ?N tr)"
    using d by (simp add: dropWhile_append)
  then have "rev (dropWhile ?N (rev (dropWhile ?N (tr @ cs @ qs)))) = dropWhile ?N tr @ cs"
    by (simp add: D)
  then show "delay_between (tr @ cs @ qs) = sleeps (dropWhile ?N tr)"
    by (simp add: delay_between_def sleeps_append sleeps_attempts[OF cs(2)])
qed

lemma after_quiet:
  assumes "attempts qs = []"
  shows "delay_between (tr @ qs) = delay_between tr"
    and "attempts tr \<noteq> [] \<Longrightarrow>
           sleeps (dropWhile (\<lambda>x. \<not> is_attempt x) (tr @ qs)) =
             sleeps (dropWhile (\<lambda>x. \<not> is_attempt x) tr) + sleeps qs"
proof -
  let ?N = "\<lambda>x. \<not> is_attempt x"
  have q: "\<forall>x\<in>set qs. ?N x" using assms by (simp add: attempts_Nil_iff)
  show "delay_between (tr @ qs) = delay_between tr"
  proof (cases "attempts tr = []")
    case True
    then have "attempts (tr @ qs) = []" using assms by (simp add: attempts_append)
    with True show ?thesis by (simp add: delay_between_def dropWhile_quiet)
  next
    case False
    then have D: "dropWhile ?N (tr @ qs) = dropWhile ?N tr @ qs"
      by (auto simp: dropWhile_append attempts_Nil_iff)
    from q have "dropWhile ?N (rev qs @ rev (dropWhile ?N tr)) = dropWhile ?N (rev (dropWhile ?N tr))"
      by (simp add: dropWhile_append)
    then show ?thesis by (simp add: delay_between_def D)
  qed
  show "sleeps (dropWhile ?N (tr @ qs)) = sleeps (dropWhile ?N tr) + sleeps qs"
    if "attempts tr \<noteq> []"
  proof -
    from that have "dropWhile ?N (tr @ qs) = dropWhile ?N tr @ qs"
      by (auto simp: dropWhile_append attempts_Nil_iff)
    then show ?thesis by (simp add: sleeps_append)
  qed
qed

subsection \<open>The simple broadcast\<close>

lemma simple_send_calls:
  assumes "simple_send e m u = (raised, cs)"
  shows "cs \<noteq> []" and "list_all is_attempt cs" and "Sleep x \<notin> set cs"
  using assms by (auto simp: simple_send_def split: if_splits)

lemma simple_tail:
  "attempts ((if b then [LogWarning u] else []) @ (if d \<noteq> 0 then [Sleep d] else [])) = []"
  "sleeps ((if b then [LogWarning u] else []) @ (if d \<noteq> 0 then [Sleep d] else [])) = d"
  by (simp_all add: sleeps_def)

lemma simple_loop_delays:
  assumes "simple_loop e m d us (n, f, tr) = (n', f', tr')"
  shows "sleeps (dropWhile (\<lambda>x. \<not> is_attempt x) tr') =
           sleeps (dropWhile (\<lambda>x. \<not> is_attempt x) tr) + of_nat (length us) * d \<and>
         sleeps tr' = sleeps tr + of_nat (length us) * d \<and>
         (us = [] \<longrightarrow> tr' = tr) \<and>
         (us \<noteq> [] \<longrightarrow>
            delay_between tr' =
              sleeps (dropWhile (\<lambda>x. \<not> is_attempt x) tr) + of_nat (length us - 1) * d)"
  using assms
proof (induction us arbitrary: n f tr)
  case Nil
  then show ?case by simp
next
  case (Cons u us)
  let ?N = "\<lambda>x. \<not> is_attempt x"
  let ?cs = "snd (simple_send e m u)"
  let ?qs = "(if fst (simple_send e m u) then [LogWarning u] else []) @
             (if d \<noteq> 0 then [Sleep d] else [])"
  let ?tr1 = "tr @ ?cs @ ?qs"
  have p: "simple_send e m u = (fst (simple_send e m u), ?cs)" by simp
  note c = simple_send_calls(1,2)[OF p]
  note A = after_calls[OF c simple_tail(1)[of "fst (simple_send e m u)" u d], of tr]
  have A1: "sleeps (dropWhile ?N ?tr1) = sleeps (dropWhile ?N tr) + d"
    using A(1) by (simp only: simple_tail(2))
  have A2: "delay_between ?tr1 = sleeps (dropWhile ?N tr)"
    using A(2) .
  have S: "sleeps ?tr1 = sleeps tr + d"
    using sleeps_attempts[OF c(2)] by (simp add: sleeps_def)
  from Cons.prems obtain n1 f1 where
    r: "simple_loop e m d us (n1, f1, ?tr1) = (n', f', tr')"
    unfolding simple_loop_step by blast
  note IH = Cons.IH[OF r]
  have 1: "sleeps (dropWhile ?N tr') = sleeps (dropWhile ?N tr) + of_nat (length (u # us)) * d"
    using IH A1 by (simp add: algebra_simps)
  have 2: "sleeps tr' = sleeps tr + of_nat (length (u # us)) * d"
    using IH S by (simp add: algebra_simps)
  have 3: "delay_between tr' = sleeps (dropWhile ?N tr) + of_nat (length (u # us) - 1) * d"
  proof (cases us)
    case Nil
    with IH have "tr' = ?tr1" by simp
    with A2 Nil show ?thesis by simp
  next
    case (Cons v vs)
    with IH have "delay_between tr' = sleeps (dropWhile ?N ?tr1) + of_nat (length us - 1) * d"
      by simp
    with A1 Cons show ?thesis by (simp add: algebra_simps)
  qed
  from 1 2 3 show ?case by simp
qed

lemma simple_loop_no_sleep:
  assumes "simple_loop e m 0 us (n, f, tr) = (n', f', tr')" and "Sleep x \<in> set tr'"
  shows "Sleep x \<in> set tr"
  using assms
proof (induction us arbitrary: n f tr)
  case Nil
  then show ?case by simp
next
  case (Cons u us)
  let ?cs = "snd (simple_send e m u)"
  have p: "simple_send e m u = (fst (simple_send e m u), ?cs)" by simp
  from Cons.prems(1) obtain n1 f1 where
    r: "simple_loop e m 0 us (n1, f1, tr @ ?cs @
          ((if fst (simple_send e m u) then [LogWarning u] else []) @ [])) = (n', f', tr')"
    unfolding simple_loop_step by auto
  from Cons.IH[OF r Cons.prems(2)] simple_send_calls(3)[OF p, of x] show ?case
    by (auto split: if_splits)
qed

subsection \<open>The PRO broadcast\<close>

lemma pro_delay_pos: "0 < pro_delay" and pro_delay_not_poll: "pro_delay \<noteq> 1"
  by (simp_all add: pro_delay_def)

lemma bc_body_trace:
  assumes "bc_body e a m ids u s = Inr s' \<or> bc_body e a m ids u s = Inl (Raised, s')"
  shows "\<exists>j qs. trace s' = (trace s @ replicate j (Sleep 1)) @ [send_call m u] @ qs \<and>
           attempts qs = [] \<and> sleeps qs = pro_delay"
proof -
  let ?mid = "(if send_raises e m u then [LogWarning u] else []) @ [Sleep pro_delay]"
  from assms have
    "\<exists>tr. (\<exists>w ts. wait_paused (the (pro_states (shared s) a)) (shared s) (sched s) (trace s) =
               Some (w, ts, tr)) \<and>
       (trace s' = tr @ [send_call m u] @ ?mid \<or>
        (\<exists>n t f. trace s' = tr @ [send_call m u] @ ?mid @ [EditMessageText (chat_id m) n t f]))"
    by (auto simp: bc_body_def Let_def bc_send_trace suspend_fields emit_fields
        split: option.splits if_splits prod.splits)
  then obtain tr w ts where
    w: "wait_paused (the (pro_states (shared s) a)) (shared s) (sched s) (trace s) = Some (w, ts, tr)"
    and t: "trace s' = tr @ [send_call m u] @ ?mid \<or>
        (\<exists>n t f. trace s' = tr @ [send_call m u] @ ?mid @ [EditMessageText (chat_id m) n t f])"
    by blast
  from wait_paused_trace[OF w] obtain j where j: "tr = trace s @ replicate j (Sleep 1)" ..
  from t show ?thesis
  proof
    assume "trace s' = tr @ [send_call m u] @ ?mid"
    then show ?thesis unfolding j
      by - (rule exI[of _ j], rule exI[of _ ?mid], simp add: sleeps_def)
  next
    assume "\<exists>n t f. trace s' = tr @ [send_call m u] @ ?mid @ [EditMessageText (chat_id m) n t f]"
    then obtain n t f where
      "trace s' = tr @ [send_call m u] @ ?mid @ [EditMessageText (chat_id m) n t f]" by blast
    then show ?thesis unfolding j
      by - (rule exI[of _ j], rule exI[of _ "?mid @ [EditMessageText (chat_id m) n t f]"],
            simp add: sleeps_def)
  qed
qed

lemma is_attempt_send_call: "list_all is_attempt [send_call m u]"
  by (simp add: send_call_def)

lemma sleeps_polls: "sleeps (replicate j (Sleep 1)) = of_nat j"
  by (induction j) (simp_all add: sleeps_def)

lemma polls_after:
  "sleeps (dropWhile (\<lambda>x. \<not> is_attempt x) (tr @ replicate j (Sleep 1))) =
     sleeps (dropWhile (\<lambda>x. \<not> is_attempt x) tr) + (if attempts tr = [] then 0 else of_nat j)"
proof (cases "attempts tr = []")
  case True
  then have "attempts (tr @ replicate j (Sleep 1)) = []"
    by (simp add: attempts_append attempts_polls)
  with True show ?thesis by (simp add: dropWhile_quiet sleeps_def)
next
  case False
  with after_quiet(2)[OF attempts_polls False, of j] show ?thesis by (simp add: sleeps_polls)
qed

text \<open>
  one iteration that attempts its recipient keeps the pace: at least
  \<open>pro_delay\<close> per attempt, and exactly that where no poll of the paused wait
  is in the trace
\<close>

lemma paced_step:
  fixes tr :: "effect list"
  defines "D \<equiv> dropWhile (\<lambda>x. \<not> is_attempt x)"
  assumes t: "tr' = (tr @ replicate j (Sleep 1)) @ [c] @ qs"
    and c: "is_attempt c" and q: "attempts qs = []" "sleeps qs = pro_delay"
    and lo: "of_nat (length (attempts tr)) * pro_delay \<le> sleeps (D tr)"
    and eq: "Sleep 1 \<notin> set tr \<longrightarrow> sleeps (D tr) = of_nat (length (attempts tr)) * pro_delay"
  shows "of_nat (length (attempts tr')) * pro_delay \<le> sleeps (D tr') \<and>
         of_nat (length (attempts tr') - 1) * pro_delay \<le> delay_between tr' \<and>
         (Sleep 1 \<notin> set tr' \<longrightarrow>
            sleeps (D tr') = of_nat (length (attempts tr')) * pro_delay \<and>
            delay_between tr' = of_nat (length (attempts tr') - 1) * pro_delay)"
proof -
  let ?ws = "replicate j (Sleep 1)"
  from c have cs: "[c] \<noteq> []" "list_all is_attempt [c]" by simp_all
  have n: "length (attempts tr') = Suc (length (attempts tr))"
    using c by (cases c) (simp_all add: t attempts_append attempts_polls q(1))
  note A = after_calls[OF cs q(1), of "tr @ ?ws"]
  have s1: "sleeps (D tr') = sleeps (D (tr @ ?ws)) + pro_delay"
    unfolding t D_def using A(1) by (simp only: q(2))
  have s2: "delay_between tr' = sleeps (D (tr @ ?ws))"
    unfolding t D_def by (rule A(2))
  have p: "sleeps (D (tr @ ?ws)) = sleeps (D tr) + (if attempts tr = [] then 0 else of_nat j)"
    unfolding D_def by (rule polls_after)
  then have ge: "sleeps (D tr) \<le> sleeps (D (tr @ ?ws))" by simp
  have 1: "of_nat (length (attempts tr')) * pro_delay \<le> sleeps (D tr')"
    using lo ge by (simp add: s1 n algebra_simps)
  have 2: "of_nat (length (attempts tr') - 1) * pro_delay \<le> delay_between tr'"
    using lo ge by (simp add: s2 n)
  have 3: "sleeps (D tr') = of_nat (length (attempts tr')) * pro_delay \<and>
            delay_between tr' = of_nat (length (attempts tr') - 1) * pro_delay"
    if np: "Sleep 1 \<notin> set tr'"
  proof -
    from np have j0: "j = 0" and nt: "Sleep 1 \<notin> set tr" by (auto simp: t)
    from p j0 eq nt have e: "sleeps (D (tr @ ?ws)) = of_nat (length (attempts tr)) * pro_delay"
      by simp
    show ?thesis by (simp add: s1 s2 e n algebra_simps)
  qed
  from 1 2 3 show ?thesis by blast
qed

lemma bc_body_paced:
  assumes b: "bc_body e a m ids u s = Inr s' \<or> bc_body e a m ids u s = Inl (Raised, s')"
    and lo: "of_nat (length (attempts (trace s))) * pro_delay \<le>
             sleeps (dropWhile (\<lambda>x. \<not> is_attempt x) (trace s))"
    and eq: "Sleep 1 \<notin> set (trace s) \<longrightarrow>
             sleeps (dropWhile (\<lambda>x. \<not> is_attempt x) (trace s)) =
               of_nat (length (attempts (trace s))) * pro_delay"
  shows "of_nat (length (attempts (trace s'))) * pro_delay \<le>
           sleeps (dropWhile (\<lambda>x. \<not> is_attempt x) (trace s')) \<and>
         of_nat (length (attempts (trace s')) - 1) * pro_delay \<le> delay_between (trace s') \<and>
         (Sleep 1 \<notin> set (trace s') \<longrightarrow>
             sleeps (dropWhile (\<lambda>x. \<not> is_attempt x) (trace s')) =
               of_nat (length (attempts (trace s'))) * pro_delay \<and>
             delay_between (trace s') = of_nat (length (attempts (trace s')) - 1) * pro_delay)"
proof -
  from bc_body_trace[OF b] obtain j qs where
    t: "trace s' = (trace s @ replicate j (Sleep 1)) @ [send_call m u] @ qs"
    and q: "attempts qs = []" "sleeps qs = pro_delay"
    by blast
  have c: "is_attempt (send_call m u)" by (simp add: send_call_def)
  show ?thesis by (rule paced_step[OF t c q lo eq])
qed

lemma bc_boundary_paced:
  assumes "bc_boundary e a m ids us s = Some s'"
    and "of_nat (length (attempts (trace s))) * pro_delay \<le>
             sleeps (dropWhile (\<lambda>x. \<not> is_attempt x) (trace s))"
    and "of_nat (length (attempts (trace s)) - 1) * pro_delay \<le> delay_between (trace s)"
    and "Sleep 1 \<notin> set (trace s) \<longrightarrow>
             sleeps (dropWhile (\<lambda>x. \<not> is_attempt x) (trace s)) =
               of_nat (length (attempts (trace s))) * pro_delay \<and>
             delay_between (trace s) = of_nat (length (attempts (trace s)) - 1) * pro_delay"
  shows "of_nat (length (attempts (trace s'))) * pro_delay \<le>
           sleeps (dropWhile (\<lambda>x. \<not> is_attempt x) (trace s')) \<and>
         of_nat (length (attempts (trace s')) - 1) * pro_delay \<le> delay_between (trace s') \<and>
         (Sleep 1 \<notin> set (trace s') \<longrightarrow>
             sleeps (dropWhile (\<lambda>x. \<not> is_attempt x) (trace s')) =
               of_nat (length (attempts (trace s'))) * pro_delay \<and>
             delay_between (trace s') = of_nat (length (attempts (trace s')) - 1) * pro_delay)"
  using assms
proof (induction us arbitrary: s)
  case Nil
  then show ?case by simp
next
  case (Cons u us)
  from Cons.prems(1) obtain s1 where b: "bc_body e a m ids u s = Inr s1"
    and r: "bc_boundary e a m ids us s1 = Some s'"
    by (auto split: sum.splits)
  from b have b': "bc_body e a m ids u s = Inr s1 \<or> bc_body e a m ids u s = Inl (Raised, s1)" ..
  from Cons.prems(4) have eq: "Sleep 1 \<notin> set (trace s) \<longrightarrow>
      sleeps (dropWhile (\<lambda>x. \<not> is_attempt x) (trace s)) =
        of_nat (length (attempts (trace s))) * pro_delay" by simp
  note P = bc_body_paced[OF b' Cons.prems(2) eq]
  show ?case
    by (rule Cons.IH[OF r P[THEN conjunct1] P[THEN conjunct2, THEN conjunct1]
          P[THEN conjunct2, THEN conjunct2]])
qed

lemma bc_loop_paced:
  assumes l: "bc_loop e a m ids us s = (k, s')"
    and i: "of_nat (length (attempts (trace s))) * pro_delay \<le>
             sleeps (dropWhile (\<lambda>x. \<not> is_attempt x) (trace s))"
      "of_nat (length (attempts (trace s)) - 1) * pro_delay \<le> delay_between (trace s)"
      "Sleep 1 \<notin> set (trace s) \<longrightarrow>
             sleeps (dropWhile (\<lambda>x. \<not> is_attempt x) (trace s)) =
               of_nat (length (attempts (trace s))) * pro_delay \<and>
             delay_between (trace s) = of_nat (length (attempts (trace s)) - 1) * pro_delay"
  shows "of_nat (length (attempts (trace s')) - 1) * pro_delay \<le> delay_between (trace s') \<and>
         (Sleep 1 \<notin> set (trace s') \<longrightarrow>
             delay_between (trace s') = of_nat (length (attempts (trace s')) - 1) * pro_delay)"
proof -
  from bc_loop_reaches[OF l] obtain xs ys s1 where
    2: "bc_boundary e a m ids xs s = Some s1" and
    3: "(k = Completed \<and> ys = [] \<and> s' = s1 \<or>
        k \<noteq> Completed \<and> (\<exists>u vs. ys = u # vs \<and> bc_body e a m ids u s1 = Inl (k, s')))"
    by blast
  note B = bc_boundary_paced[OF 2 i]
  from 3 show ?thesis
  proof
    assume "k = Completed \<and> ys = [] \<and> s' = s1"
    with B show ?thesis by simp
  next
    assume "k \<noteq> Completed \<and> (\<exists>u vs. ys = u # vs \<and> bc_body e a m ids u s1 = Inl (k, s'))"
    then obtain u where b: "bc_body e a m ids u s1 = Inl (k, s')" by blast
    show ?thesis
    proof (cases "k = Raised")
      case True
      with b have b': "bc_body e a m ids u s1 = Inr s' \<or> bc_body e a m ids u s1 = Inl (Raised, s')"
        by simp
      from B have eq: "Sleep 1 \<notin> set (trace s1) \<longrightarrow>
        sleeps (dropWhile (\<lambda>x. \<not> is_attempt x) (trace s1)) =
          of_nat (length (attempts (trace s1))) * pro_delay" by simp
      note P = bc_body_paced[OF b' B[THEN conjunct1] eq]
      from P show ?thesis by blast
    next
      case False
      from bc_body_Inl(2)[OF b False] B show ?thesis by simp
    qed
  qed
qed

lemma run_broadcast_paced:
  assumes "run_broadcast e a m users w ts = (k, r)"
  shows "of_nat (length (attempts (trace r)) - 1) * pro_delay \<le> delay_between (trace r) \<and>
         (Sleep 1 \<notin> set (trace r) \<longrightarrow>
            delay_between (trace r) = of_nat (length (attempts (trace r)) - 1) * pro_delay)"
proof -
  let ?ids = "resolve_recipients users"
  let ?s0 = "bc_start m (length ?ids) w ts"
  let ?l = "bc_loop e a m ?ids ?ids ?s0"
  have l: "?l = (fst ?l, snd ?l)" by simp
  have L: "of_nat (length (attempts (trace (snd ?l))) - 1) * pro_delay \<le> delay_between (trace (snd ?l)) \<and>
         (Sleep 1 \<notin> set (trace (snd ?l)) \<longrightarrow>
             delay_between (trace (snd ?l)) =
               of_nat (length (attempts (trace (snd ?l))) - 1) * pro_delay)"
    by (rule bc_loop_paced[OF l]) (simp_all add: bc_start_fields delay_between_def sleeps_def)
  from assms have r: "r = snd ?l \<or> r = bc_finish e a m (length ?ids) (snd ?l)"
    by (auto simp: run_broadcast_unfold Let_def split: if_splits)
  have f: "delay_between (trace (bc_finish e a m (length ?ids) (snd ?l))) =
      delay_between (trace (snd ?l))"
    by (simp only: bc_finish_fields(3), rule after_quiet(1)) simp
  have g: "Sleep 1 \<notin> set (trace (bc_finish e a m (length ?ids) (snd ?l))) \<Longrightarrow>
      Sleep 1 \<notin> set (trace (snd ?l))"
    by (simp add: bc_finish_fields(3))
  from r show ?thesis
  proof
    assume "r = snd ?l"
    with L show ?thesis by simp
  next
    assume "r = bc_finish e a m (length ?ids) (snd ?l)"
    with L f g show ?thesis by (auto simp: bc_finish_attempts)
  qed
qed

section \<open>The claims\<close>

text \<open>
  Claim C1 as stated fails at its last clause. The control message is gone,
  so the progress edit of the first iteration raises: the call ends there
  with \<open>sent + failed = 1\<close> of three resolved recipients, although the
  operator's state is still in the registry and is not stopped.
\<close>

theorem counters_short_of_total_counterexample:
  "resolve_recipients ex_users = [1, 2, 5] \<and>
   fst (run_broadcast ex_deleted_env 7 ex_photo ex_users ex_world []) = Raised \<and>
   sent (snd (run_broadcast ex_deleted_env 7 ex_photo ex_users ex_world [])) +
   failed (snd (run_broadcast ex_deleted_env 7 ex_photo ex_users ex_world [])) = 1 \<and>
   attempts (trace (snd (run_broadcast ex_deleted_env 7 ex_photo ex_users ex_world []))) = [1] \<and>
   pro_states (shared (snd (run_broadcast ex_deleted_env 7 ex_photo ex_users ex_world []))) 7 = Some 0 \<and>
   stopped (heap (shared (snd (run_broadcast ex_deleted_env 7 ex_photo ex_users ex_world []))) 0) =
     Some False"
  by code_simp

text \<open>
  Claim C1 as amended. In \<^verbatim>\<open>run_broadcast\<close>, at the iteration boundary after the
  first \<open>n\<close> recipients, \<open>sent + failed\<close> is \<open>n\<close>, which is at most the number of
  resolved recipients, and exactly these \<open>n\<close> have been attempted. An iteration
  that attempts its recipient (it goes on, or it leaves with the error of the
  progress edit) adds one to exactly one of \<open>sent\<close> and \<open>failed\<close> and attempts
  that recipient only; an iteration that leaves the loop otherwise changes
  nothing. However the call ends, \<open>sent + failed\<close> is the number of recipients
  attempted, a prefix of the resolved list. It is the whole list when the loop
  runs out of recipients; when the loop breaks, the registry had no entry for
  the operator or the entry was stopped at that boundary; and when the call
  ends with an error, the progress edit raised at the counters reached.

  In the simple broadcast, after the first \<open>j\<close> recipients \<open>sent + failed\<close> is
  \<open>j\<close> and the transport calls made are those of these \<open>j\<close> recipients, in
  order; every iteration adds one to exactly one of \<open>sent\<close> and \<open>failed\<close> and
  calls the transport for its recipient once, or twice when the copy fails
  and the text is sent instead; the loop always runs to the end of the list,
  where \<open>sent + failed\<close> is the number of recipients and every one of them has
  been attempted.
\<close>

theorem counters_bounded_by_recipients:
  assumes "ids = resolve_recipients users" and "s0 = bc_start m (length ids) w ts"
  shows
   "(\<forall>n s. n \<le> length ids \<longrightarrow> bc_boundary e a m ids (take n ids) s0 = Some s \<longrightarrow>
        sent s + failed s = n \<and> sent s + failed s \<le> length ids \<and> attempts (trace s) = take n ids) \<and>
    (\<forall>u s s'. bc_body e a m ids u s = Inr s' \<or> bc_body e a m ids u s = Inl (Raised, s') \<longrightarrow>
        attempts (trace s') = attempts (trace s) @ [u] \<and>
        (sent s' = Suc (sent s) \<and> failed s' = failed s \<or>
         sent s' = sent s \<and> failed s' = Suc (failed s))) \<and>
    (\<forall>u s k s'. bc_body e a m ids u s = Inl (k, s') \<longrightarrow> k \<noteq> Raised \<longrightarrow> s' = s) \<and>
    (\<forall>k r. run_broadcast e a m users w ts = (k, r) \<longrightarrow>
        sent r + failed r = length (attempts (trace r)) \<and>
        attempts (trace r) = take (sent r + failed r) ids \<and>
        sent r + failed r \<le> length ids \<and>
        (k = Completed \<longrightarrow> sent r + failed r = length ids) \<and>
        (k = Broke \<longrightarrow>
           (\<exists>s. bc_boundary e a m ids (attempts (trace r)) s0 = Some s \<and>
                (case pro_states (shared s) a of None \<Rightarrow> True
                 | Some p \<Rightarrow> truthy (stopped (heap (shared s) p))))) \<and>
        (k = Raised \<longrightarrow> edit_message_text_raises e (sent r) (failed r))) \<and>
    (\<forall>d j n f tr. j \<le> length ids \<longrightarrow> simple_loop e m d (take j ids) (0, 0, []) = (n, f, tr) \<longrightarrow>
        n + f = j \<and> n + f \<le> length ids \<and>
        attempts tr = concat (map (\<lambda>u. attempts (snd (simple_send e m u))) (take j ids))) \<and>
    (\<forall>d u n f tr n' f' tr'. simple_body e m d u (n, f, tr) = (n', f', tr') \<longrightarrow>
        (n' = Suc n \<and> f' = f \<or> n' = n \<and> f' = Suc f) \<and>
        (attempts tr' = attempts tr @ [u] \<or> attempts tr' = attempts tr @ [u, u])) \<and>
    (\<forall>rate n f tr. admin_broadcast_flow e rate m users = (n, f, tr) \<longrightarrow>
        n + f = length ids \<and>
        attempts tr = concat (map (\<lambda>u. attempts (snd (simple_send e m u))) ids) \<and>
        set (attempts tr) = set ids)"
proof (intro conjI allI impI)
  fix n s
  assume n: "n \<le> length ids" and b: "bc_boundary e a m ids (take n ids) s0 = Some s"
  from bc_boundary_sum[OF b] bc_boundary_counts[OF b] n assms
  show "sent s + failed s = n" "sent s + failed s \<le> length ids" "attempts (trace s) = take n ids"
    by (simp_all add: bc_start_fields)
next
  fix u s s'
  assume "bc_body e a m ids u s = Inr s' \<or> bc_body e a m ids u s = Inl (Raised, s')"
  then have "attempts (trace s') = attempts (trace s) @ [u] \<and>
      sent s' = (if send_raises e m u then sent s else Suc (sent s)) \<and>
      failed s' = (if send_raises e m u then Suc (failed s) else failed s)"
    using bc_body_Inr[of e a m ids u s s'] bc_body_Inl(3,4,5)[of e a m ids u s Raised s']
    by blast
  then show "attempts (trace s') = attempts (trace s) @ [u]"
    "sent s' = Suc (sent s) \<and> failed s' = failed s \<or> sent s' = sent s \<and> failed s' = Suc (failed s)"
    by (simp_all split: if_splits)
next
  fix u s k s'
  assume "bc_body e a m ids u s = Inl (k, s')" "k \<noteq> Raised"
  then show "s' = s" by (rule bc_body_Inl(2))
next
  fix k r
  assume run: "run_broadcast e a m users w ts = (k, r)"
  from run_broadcast_result[OF run] assms(1) obtain xs ys where
    x: "ids = xs @ ys" "attempts (trace r) = xs" "sent r + failed r = length xs"
       "k = Completed \<longrightarrow> ys = []" by auto
  from x show "sent r + failed r = length (attempts (trace r))" by simp
  from x show "attempts (trace r) = take (sent r + failed r) ids" by simp
  from x show "sent r + failed r \<le> length ids" by simp
  { assume "k = Completed" with x show "sent r + failed r = length ids" by simp }
  { assume k: "k = Broke"
    let ?l = "bc_loop e a m ids ids s0"
    from run k assms have l: "?l = (Broke, snd ?l)" and r: "r = bc_finish e a m (length ids) (snd ?l)"
      by (auto simp: run_broadcast_unfold Let_def split: if_splits intro: prod_eqI)
    from bc_loop_Broke[OF l] obtain zs where
      z: "bc_boundary e a m ids zs s0 = Some (snd ?l)"
      and c: "(case pro_states (shared (snd ?l)) a of None \<Rightarrow> True
            | Some p \<Rightarrow> truthy (stopped (heap (shared (snd ?l)) p)))" by blast
    from bc_boundary_counts[OF z] assms(2) have "attempts (trace (snd ?l)) = zs"
      by (simp add: bc_start_fields)
    with r have "attempts (trace r) = zs" by (simp add: bc_finish_attempts)
    with z c show "\<exists>s. bc_boundary e a m ids (attempts (trace r)) s0 = Some s \<and>
                (case pro_states (shared s) a of None \<Rightarrow> True
                 | Some p \<Rightarrow> truthy (stopped (heap (shared s) p)))" by blast }
  { assume k: "k = Raised"
    let ?l = "bc_loop e a m ids ids s0"
    from run k assms have l: "?l = (Raised, r)"
      by (auto simp: run_broadcast_unfold Let_def split: if_splits intro: prod_eqI)
    from bc_loop_edits(3)[OF l] show "edit_message_text_raises e (sent r) (failed r)" by simp }
next
  fix d j n f tr
  assume j: "j \<le> length ids" and l: "simple_loop e m d (take j ids) (0, 0, []) = (n, f, tr)"
  from simple_loop_counts[OF l] j
  show "n + f = j" "n + f \<le> length ids"
    "attempts tr = concat (map (\<lambda>u. attempts (snd (simple_send e m u))) (take j ids))"
    by simp_all
next
  fix d u n f tr n' f' tr'
  assume b: "simple_body e m d u (n, f, tr) = (n', f', tr')"
  then show "n' = Suc n \<and> f' = f \<or> n' = n \<and> f' = Suc f"
    by (auto simp: simple_body_eq split: if_splits)
  from b have "attempts tr' = attempts tr @ attempts (snd (simple_send e m u))"
    by (auto simp: simple_body_eq attempts_append split: if_splits)
  with simple_send_attempts[of e m u]
  show "attempts tr' = attempts tr @ [u] \<or> attempts tr' = attempts tr @ [u, u]" by auto
next
  fix rate n f tr
  assume "admin_broadcast_flow e rate m users = (n, f, tr)"
  then obtain tr0 where l: "simple_loop e m (simple_delay e rate) ids (0, 0, []) = (n, f, tr0)"
    and t: "tr = tr0 @ [Report n f]"
    using assms(1) by (auto simp: admin_broadcast_flow_def Let_def split: prod.splits)
  from simple_loop_counts[OF l] show "n + f = length ids" by simp
  from simple_loop_counts[OF l] t
  show c: "attempts tr = concat (map (\<lambda>u. attempts (snd (simple_send e m u))) ids)"
    by (simp add: attempts_append)
  have "set (concat (map (\<lambda>u. attempts (snd (simple_send e m u))) us)) = set us" for us
  proof (induction us)
    case Nil
    then show ?case by simp
  next
    case (Cons u us)
    from simple_send_attempts[of e m u]
    have "set (attempts (snd (simple_send e m u))) = {u}" by auto
    with Cons show ?case by simp
  qed
  with c show "set (attempts tr) = set ids" by simp
qed

theorem counters_bounded_by_recipients_witness:
  "resolve_recipients ex_users = [1, 2, 5] \<and>
   (case bc_boundary ex_env 7 ex_msg [1, 2, 5] (take 2 [1, 2, 5]) (bc_start ex_msg 3 ex_world ex_stop_sched) of
      None \<Rightarrow> False
    | Some s \<Rightarrow> sent s + failed s = 2 \<and> attempts (trace s) = [1, 2]) \<and>
   fst (run_broadcast ex_env 7 ex_msg ex_users ex_world ex_stop_sched) = Broke \<and>
   sent (snd (run_broadcast ex_env 7 ex_msg ex_users ex_world ex_stop_sched)) +
   failed (snd (run_broadcast ex_env 7 ex_msg ex_users ex_world ex_stop_sched)) = 2 \<and>
   attempts (trace (snd (run_broadcast ex_env 7 ex_msg ex_users ex_world ex_stop_sched))) = [1, 2] \<and>
   fst (admin_broadcast_flow ex_env 20 ex_msg ex_users) +
   fst (snd (admin_broadcast_flow ex_env 20 ex_msg ex_users)) = 3 \<and>
   attempts (snd (snd (admin_broadcast_flow ex_env 20 ex_msg ex_users))) = [1, 2, 5]"
proof -
  let ?s0 = "bc_start ex_msg 3 ex_world ex_stop_sched"
  let ?run = "run_broadcast ex_env 7 ex_msg ex_users ex_world ex_stop_sched"
  let ?flow = "admin_broadcast_flow ex_env 20 ex_msg ex_users"
  have h1: "[1, 2, 5] = resolve_recipients ex_users"
    by (simp add: resolve_recipients_def ex_users_def)
  have h2: "?s0 = bc_start ex_msg (length [1, 2, 5 :: int]) ex_world ex_stop_sched"
    by (simp add: numeral_3_eq_3)
  note T = counters_bounded_by_recipients[OF h1 h2, where e = ex_env and a = 7]
  have b: "bc_boundary ex_env 7 ex_msg [1, 2, 5] (take 2 [1, 2, 5]) ?s0 \<noteq> None" by code_simp
  then obtain s where s: "bc_boundary ex_env 7 ex_msg [1, 2, 5] (take 2 [1, 2, 5]) ?s0 = Some s" by blast
  have "sent s + failed s = 2 \<and> sent s + failed s \<le> length [1, 2, 5 :: int] \<and>
      attempts (trace s) = take 2 [1, 2, 5]"
    using T[THEN conjunct1, rule_format, of 2 s] s by simp
  with s have c1: "(case bc_boundary ex_env 7 ex_msg [1, 2, 5] (take 2 [1, 2, 5]) ?s0 of
      None \<Rightarrow> False | Some s \<Rightarrow> sent s + failed s = 2 \<and> attempts (trace s) = [1, 2])" by simp
  have k: "fst ?run = Broke" by code_simp
  have r: "?run = (fst ?run, snd ?run)" by simp
  note R = T[THEN conjunct2, THEN conjunct2, THEN conjunct2, THEN conjunct1, rule_format, OF r]
  have n2: "sent (snd ?run) + failed (snd ?run) = 2" by code_simp
  have "attempts (trace (snd ?run)) = take 2 [1, 2, 5]"
    using R[THEN conjunct2, THEN conjunct1] unfolding n2 .
  then have "attempts (trace (snd ?run)) = [1, 2]" by simp
  with n2 have c2: "sent (snd ?run) + failed (snd ?run) = 2 \<and> attempts (trace (snd ?run)) = [1, 2]"
    by (rule conjI)
  have f: "?flow = (fst ?flow, fst (snd ?flow), snd (snd ?flow))" by simp
  note F = T[THEN conjunct2, THEN conjunct2, THEN conjunct2, THEN conjunct2, THEN conjunct2,
    THEN conjunct2, rule_format, OF f]
  have c3: "fst ?flow + fst (snd ?flow) = 3"
    using F[THEN conjunct1] by simp
  have "concat (map (\<lambda>u. attempts (snd (simple_send ex_env ex_msg u))) [1, 2, 5]) = [1, 2, 5]"
    by code_simp
  with F[THEN conjunct2, THEN conjunct1]
  have c4: "attempts (snd (snd ?flow)) = [1, 2, 5]" by simp
  from h1[symmetric] c1 k c2 c3 c4 show ?thesis by (intro conjI) (erule conjunct1 conjunct2 | assumption)+
qed

text \<open>
  Claim C2, at an input where the simple broadcast departs from it. The
  message is a photo without text, \<^verbatim>\<open>copy_message\<close> raises for every
  recipient, yet the simple broadcast reports three sent and none failed:
  the inner \<^verbatim>\<open>try\<close> swallows the error and \<^verbatim>\<open>sent\<close> is incremented. The loop
  of \<^verbatim>\<open>run_broadcast\<close> on the same input counts three failures.
\<close>

theorem simple_broadcast_counts_failed_copy_as_sent:
  "(\<forall>u. copy_message_raises ex_env u) \<and>
   admin_broadcast_flow ex_env 20 ex_photo ex_users =
     (3, 0, [CopyMessage 1 5 9, Sleep 3, CopyMessage 2 5 9, Sleep 3,
             CopyMessage 5 5 9, Sleep 3, Report 3 0]) \<and>
   sent (snd (run_broadcast ex_env 7 ex_photo ex_users ex_world [])) = 0 \<and>
   failed (snd (run_broadcast ex_env 7 ex_photo ex_users ex_world [])) = 3"
proof -
  have "\<forall>u. copy_message_raises ex_env u" by (simp add: ex_env_def)
  moreover have "admin_broadcast_flow ex_env 20 ex_photo ex_users =
     (3, 0, [CopyMessage 1 5 9, Sleep 3, CopyMessage 2 5 9, Sleep 3,
             CopyMessage 5 5 9, Sleep 3, Report 3 0])" by code_simp
  moreover have "sent (snd (run_broadcast ex_env 7 ex_photo ex_users ex_world [])) = 0"
    by code_simp
  moreover have "failed (snd (run_broadcast ex_env 7 ex_photo ex_users ex_world [])) = 3"
    by code_simp
  ultimately show ?thesis by blast
qed

text \<open>
  Claim C3 as stated fails. The operator presses stop while the second of
  three recipients is being sent to, and \<^verbatim>\<open>pro:new\<close> right after. At the
  boundary after two recipients \<^verbatim>\<open>stop()\<close> has set \<^verbatim>\<open>stopped\<close> on the state of
  the batch, but the registry holds a new state without the flag: the loop
  goes on, the third recipient is attempted and \<open>sent + failed\<close> ends as 3.
\<close>

theorem stop_then_new_counterexample:
  "resolve_recipients ex_users = [1, 2, 5] \<and>
   pro_states ex_world 7 = Some 0 \<and>
   (case bc_boundary ex_env 7 ex_msg [1, 2, 5] (take 2 [1, 2, 5])
           (bc_start ex_msg 3 ex_world ex_stop_new_sched) of
      None \<Rightarrow> False
    | Some s \<Rightarrow> stopped (heap (shared s) 0) = Some True \<and> sent s + failed s = 2 \<and>
               pro_states (shared s) 7 = Some 1 \<and> stopped (heap (shared s) 1) = None) \<and>
   fst (run_broadcast ex_env 7 ex_msg ex_users ex_world ex_stop_new_sched) = Completed \<and>
   attempts (trace (snd (run_broadcast ex_env 7 ex_msg ex_users ex_world ex_stop_new_sched))) =
     [1, 2, 5] \<and>
   sent (snd (run_broadcast ex_env 7 ex_msg ex_users ex_world ex_stop_new_sched)) +
   failed (snd (run_broadcast ex_env 7 ex_msg ex_users ex_world ex_stop_new_sched)) = 3"
  by code_simp

text \<open>
  Claim C3 as amended. Let the state that the registry holds for the operator
  at the iteration boundary after \<open>n\<close> of the resolved recipients be stopped:
  \<^verbatim>\<open>stop()\<close> has set \<^verbatim>\<open>stopped\<close> on it and the entry has not been replaced
  since. Then \<^verbatim>\<open>run_broadcast\<close> leaves the loop there (by \<^verbatim>\<open>break\<close> when
  recipients remain): exactly the first \<open>n\<close> recipients are attempted,
  \<open>sent + failed = n\<close>, and one history row is written whose \<^verbatim>\<open>total_users\<close> is
  the number of resolved recipients and whose \<^verbatim>\<open>sent_count\<close> is the number of
  those \<open>n\<close> sends that did not fail.
\<close>

theorem stop_leaves_loop_and_is_recorded:
  assumes ids: "ids = resolve_recipients users"
    and s0: "s0 = bc_start m (length ids) w ts"
    and n: "n \<le> length ids"
    and b: "bc_boundary e a m ids (take n ids) s0 = Some s"
    and p: "pro_states (shared s) a = Some p"
    and st: "truthy (stopped (heap (shared s) p))"
    and run: "run_broadcast e a m users w ts = (k, r)"
  shows "(n < length ids \<longrightarrow> k = Broke) \<and>
         attempts (trace r) = take n ids \<and>
         sent r + failed r = n \<and>
         sent r = length (filter (\<lambda>u. \<not> send_raises e m u) (take n ids)) \<and>
         inserts (trace r) = [new_row e w a m (sent r) (length ids)] \<and>
         broadcast_history (shared r) = broadcast_history w @ [new_row e w a m (sent r) (length ids)] \<and>
         total_users (new_row e w a m (sent r) (length ids)) = int (length ids) \<and>
         sent_count (new_row e w a m (sent r) (length ids)) =
           int (length (filter (\<lambda>u. \<not> send_raises e m u) (take n ids)))"
proof -
  from p st have c: "case pro_states (shared s) a of None \<Rightarrow> True
            | Some p \<Rightarrow> truthy (stopped (heap (shared s) p))" by simp
  from run_broadcast_break[OF ids s0 n b c] run
  have k: "k = (if n < length ids then Broke else Completed)"
    and r: "r = bc_finish e a m (length ids) s" by simp_all
  note f = bc_boundary_start[OF b[unfolded s0]]
  have row: "new_row e (shared s) a m (sent s) (length ids) = new_row e w a m (sent s) (length ids)"
    by (rule new_row_seq) (rule f(6))
  from n have len: "length (take n ids) = n" by simp
  show ?thesis
    using k f len
    by (simp add: r bc_finish_fields(1,2) bc_finish_attempts bc_finish_inserts bc_finish_store row
        new_row_def)
qed

theorem stop_leaves_loop_and_is_recorded_witness:
  "(case bc_boundary ex_env 7 ex_msg [1, 2, 5] (take 2 [1, 2, 5])
           (bc_start ex_msg 3 ex_world ex_stop_sched) of
      None \<Rightarrow> False
    | Some s \<Rightarrow> pro_states (shared s) 7 = Some 0 \<and> truthy (stopped (heap (shared s) 0))) \<and>
   fst (run_broadcast ex_env 7 ex_msg ex_users ex_world ex_stop_sched) = Broke \<and>
   attempts (trace (snd (run_broadcast ex_env 7 ex_msg ex_users ex_world ex_stop_sched))) = [1, 2] \<and>
   sent (snd (run_broadcast ex_env 7 ex_msg ex_users ex_world ex_stop_sched)) = 1 \<and>
   failed (snd (run_broadcast ex_env 7 ex_msg ex_users ex_world ex_stop_sched)) = 1 \<and>
   inserts (trace (snd (run_broadcast ex_env 7 ex_msg ex_users ex_world ex_stop_sched))) =
     [\<lparr>row_id = 1, created_at = 1000, admin_id = 7, row_type = Some ''pro'',
       media_type = Some ''text'', sent_count = 1, total_users = 3,
       message_text = Some ''hi''\<rparr>]"
proof -
  let ?s0 = "bc_start ex_msg 3 ex_world ex_stop_sched"
  let ?b = "bc_boundary ex_env 7 ex_msg [1, 2, 5] (take 2 [1, 2, 5]) ?s0"
  let ?run = "run_broadcast ex_env 7 ex_msg ex_users ex_world ex_stop_sched"
  have h1: "[1, 2, 5] = resolve_recipients ex_users"
    by (simp add: resolve_recipients_def ex_users_def)
  have h2: "?s0 = bc_start ex_msg (length [1, 2, 5 :: int]) ex_world ex_stop_sched"
    by (simp add: numeral_3_eq_3)
  have h3: "2 \<le> length [1, 2, 5 :: int]" by simp
  have hb: "case ?b of None \<Rightarrow> False
    | Some s \<Rightarrow> pro_states (shared s) 7 = Some 0 \<and> truthy (stopped (heap (shared s) 0))"
    by code_simp
  then obtain s where s: "?b = Some s" and p: "pro_states (shared s) 7 = Some 0"
    and st: "truthy (stopped (heap (shared s) 0))"
    by (cases ?b) simp_all
  have r: "?run = (fst ?run, snd ?run)" by simp
  note T = stop_leaves_loop_and_is_recorded[OF h1 h2 h3 s p st r]
  have "fst ?run = Broke \<and> attempts (trace (snd ?run)) = [1, 2] \<and>
    sent (snd ?run) = 1 \<and> failed (snd ?run) = 1 \<and>
    inserts (trace (snd ?run)) =
     [\<lparr>row_id = 1, created_at = 1000, admin_id = 7, row_type = Some ''pro'',
       media_type = Some ''text'', sent_count = 1, total_users = 3,
       message_text = Some ''hi''\<rparr>]"
    using T
    by (simp add: send_raises_def ex_env_def ex_msg_def ex_world_def new_row_def stored_text_def
        nonempty_def or_empty_def)
  with hb show ?thesis by (rule conjI)
qed

text \<open>
  Claim C4, at an input where the worker departs from it. The batch is paused
  at the first iteration boundary and the operator presses stop during the
  wait: the entry the worker polls is then stopped and paused, the worker
  stays in the wait for ever, with no recipient attempted, no history row and
  no tally. With a resume in place of the stop the same batch goes on with
  the first recipient and attempts all three.
\<close>

theorem stop_while_paused_never_returns:
  "truthy (paused (heap (shared (bc_start ex_msg 3 ex_world ex_pause_stop_sched)) 0)) \<and>
   truthy (stopped (heap (run_tick [Callback ''stop'' 7]
                             (shared (bc_start ex_msg 3 ex_world ex_pause_stop_sched))) 0)) \<and>
   fst (run_broadcast ex_env 7 ex_msg ex_users ex_world ex_pause_stop_sched) = Hung \<and>
   trace (snd (run_broadcast ex_env 7 ex_msg ex_users ex_world ex_pause_stop_sched)) =
     [ControlMessage 5 3] \<and>
   broadcast_history (shared (snd (run_broadcast ex_env 7 ex_msg ex_users ex_world ex_pause_stop_sched))) = [] \<and>
   fst (run_broadcast ex_env 7 ex_msg ex_users ex_world ex_pause_resume_sched) = Completed \<and>
   attempts (trace (snd (run_broadcast ex_env 7 ex_msg ex_users ex_world ex_pause_resume_sched))) =
     [1, 2, 5]"
  by code_simp

text \<open>
  Claim C5 as stated fails. Operator 7 has a batch in flight. Pressing
  \<^verbatim>\<open>pro:new\<close> is answered with the request for a message, not with a
  rejection, and the registry entry of the operator is no longer the state of
  the batch. In flight this supersedes a stop: with stop alone the worker
  leaves after two recipients, with stop followed by \<^verbatim>\<open>pro:new\<close> it attempts
  all three.
\<close>

theorem new_broadcast_not_rejected_counterexample:
  "pro_states_get ex_world 7 = Some ex_state \<and>
   fst (pro_callback ''new'' 7 ex_world) = WaitingForMessage \<and>
   fst (pro_callback ''new'' 7 ex_world) \<noteq> AlreadyActive \<and>
   pro_states_get (snd (pro_callback ''new'' 7 ex_world)) 7 = Some wait_msg_state \<and>
   pro_states_get (snd (pro_callback ''new'' 7 ex_world)) 7 \<noteq> pro_states_get ex_world 7 \<and>
   attempts (trace (snd (run_broadcast ex_env 7 ex_msg ex_users ex_world ex_stop_sched))) = [1, 2] \<and>
   attempts (trace (snd (run_broadcast ex_env 7 ex_msg ex_users ex_world ex_stop_new_sched))) = [1, 2, 5] \<and>
   fst (run_broadcast ex_env 7 ex_msg ex_users ex_world ex_stop_new_sched) = Completed"
proof -
  have 1: "pro_states_get ex_world 7 = Some ex_state"
    by (simp add: pro_states_get_def ex_world_def)
  have 2: "fst (pro_callback ''new'' 7 ex_world) = WaitingForMessage"
    by (simp add: pro_callback_def)
  have 3: "pro_states_get (snd (pro_callback ''new'' 7 ex_world)) 7 = Some wait_msg_state"
    by (simp add: pro_callback_def pro_states_get_def pro_states_set_def wait_msg_state_def)
  have 4: "wait_msg_state \<noteq> ex_state"
    by (simp add: wait_msg_state_def ex_state_def)
  have 5: "attempts (trace (snd (run_broadcast ex_env 7 ex_msg ex_users ex_world ex_stop_sched))) = [1, 2]"
    by code_simp
  have 6: "attempts (trace (snd (run_broadcast ex_env 7 ex_msg ex_users ex_world ex_stop_new_sched))) = [1, 2, 5]"
    by code_simp
  have 7: "fst (run_broadcast ex_env 7 ex_msg ex_users ex_world ex_stop_new_sched) = Completed"
    by code_simp
  from 1 2 3 4 5 6 7 show ?thesis by simp
qed

text \<open>
  Claim C5 as amended. For every operator and every state of the registry,
  \<^verbatim>\<open>pro:new\<close> is accepted: the handler asks for the message and never answers
  with a rejection; it registers a new state object \<^verbatim>\<open>{"step": "wait_msg"}\<close>,
  without \<^verbatim>\<open>msg\<close>, \<^verbatim>\<open>paused\<close> and \<^verbatim>\<open>stopped\<close>, for the operator and leaves the
  entries of other operators and every object that existed before as they
  were. A message that arrives in step \<^verbatim>\<open>wait_msg\<close> is accepted likewise and
  registers a new object with both flags false. Confirming starts the worker
  with the message of the operator's entry when the entry has one, and raises
  \<^verbatim>\<open>KeyError\<close> when it has none, as right after \<^verbatim>\<open>pro:new\<close>. A worker in flight
  reads the registry at each iteration boundary: right after \<^verbatim>\<open>pro:new\<close> its
  next iteration attempts its recipient, whatever the flags of the replaced
  state were. A worker inside the paused wait keeps the replaced object: once
  \<^verbatim>\<open>pro:new\<close> has taken the only entry that led to it, no handler changes it
  and the wait never ends.
\<close>

theorem new_broadcast_replaces_entry:
  "fst (pro_callback ''new'' a w) = WaitingForMessage \<and>
   fst (pro_callback ''new'' a w) \<noteq> AlreadyActive \<and>
   pro_states_get (snd (pro_callback ''new'' a w)) a = Some wait_msg_state \<and>
   pro_states (snd (pro_callback ''new'' a w)) = (pro_states w)(a \<mapsto> next_ref w) \<and>
   heap (snd (pro_callback ''new'' a w)) = (heap w)(next_ref w := wait_msg_state) \<and>
   (\<forall>st. pro_states_get w a = Some st \<and> step st = Some ''wait_msg'' \<longrightarrow>
      fst (process_broadcast m a w) = PreviewReady \<and>
      pro_states_get (snd (process_broadcast m a w)) a =
        Some \<lparr>step = Some ''confirm'', msg = Some m, paused = Some False, stopped = Some False\<rparr> \<and>
      heap (snd (process_broadcast m a w)) =
        (heap w)(next_ref w := \<lparr>step = Some ''confirm'', msg = Some m,
                                paused = Some False, stopped = Some False\<rparr>)) \<and>
   (\<forall>st. pro_states_get w a = Some st \<longrightarrow>
      pro_confirm_cb ''pro:confirm_send'' a w =
        (case msg st of None \<Rightarrow> Inl KeyError | Some m' \<Rightarrow> Inr (Launched, Some m', w))) \<and>
   pro_confirm_cb ''pro:confirm_send'' a (snd (pro_callback ''new'' a w)) = Inl KeyError \<and>
   (\<forall>s. shared s = snd (pro_callback ''new'' a w) \<longrightarrow>
      (\<exists>s'. (bc_body e a m ids u s = Inr s' \<or> bc_body e a m ids u s = Inl (Raised, s')) \<and>
            attempts (trace s') = attempts (trace s) @ [u])) \<and>
   (\<forall>p ts tr. truthy (paused (heap w p)) \<and> p < next_ref w \<and>
        (\<forall>b. b \<noteq> a \<longrightarrow> pro_states w b \<noteq> Some p) \<longrightarrow>
      wait_paused p (snd (pro_callback ''new'' a w)) ts tr = None)"
proof (intro conjI allI impI)
  show "fst (pro_callback ''new'' a w) = WaitingForMessage"
    "fst (pro_callback ''new'' a w) \<noteq> AlreadyActive"
    by (simp_all add: pro_callback_def)
  show "pro_states_get (snd (pro_callback ''new'' a w)) a = Some wait_msg_state"
    by (simp add: pro_callback_def pro_states_get_def pro_states_set_def wait_msg_state_def)
  show "pro_states (snd (pro_callback ''new'' a w)) = (pro_states w)(a \<mapsto> next_ref w)"
    by (simp add: pro_callback_def pro_states_set_def)
  show "heap (snd (pro_callback ''new'' a w)) = (heap w)(next_ref w := wait_msg_state)"
    by (simp add: pro_callback_def pro_states_set_def wait_msg_state_def)
next
  fix st
  assume st: "pro_states_get w a = Some st \<and> step st = Some ''wait_msg''"
  then show "fst (process_broadcast m a w) = PreviewReady"
    by (simp add: process_broadcast_def)
  from st show "pro_states_get (snd (process_broadcast m a w)) a =
        Some \<lparr>step = Some ''confirm'', msg = Some m, paused = Some False, stopped = Some False\<rparr>"
    by (simp add: process_broadcast_def pro_states_set_def) (simp add: pro_states_get_def)
  from st show "heap (snd (process_broadcast m a w)) =
        (heap w)(next_ref w := \<lparr>step = Some ''confirm'', msg = Some m,
                                paused = Some False, stopped = Some False\<rparr>)"
    by (simp add: process_broadcast_def pro_states_set_def)
next
  fix st
  assume "pro_states_get w a = Some st"
  then show "pro_confirm_cb ''pro:confirm_send'' a w =
        (case msg st of None \<Rightarrow> Inl KeyError | Some m' \<Rightarrow> Inr (Launched, Some m', w))"
    by (simp add: pro_confirm_cb_def)
next
  show "pro_confirm_cb ''pro:confirm_send'' a (snd (pro_callback ''new'' a w)) = Inl KeyError"
    by (simp add: pro_confirm_cb_def pro_callback_def pro_states_get_def pro_states_set_def)
next
  fix s :: bc_state
  assume s: "shared s = snd (pro_callback ''new'' a w)"
  have "pro_states (shared s) a = Some (next_ref w)"
    "\<not> truthy (stopped (heap (shared s) (next_ref w)))"
    "\<not> truthy (paused (heap (shared s) (next_ref w)))"
    by (simp_all add: s pro_callback_def pro_states_set_def truthy_def)
  then show "\<exists>s'. (bc_body e a m ids u s = Inr s' \<or> bc_body e a m ids u s = Inl (Raised, s')) \<and>
            attempts (trace s') = attempts (trace s) @ [u]"
    by (rule bc_body_attempts)
next
  fix p ts tr
  assume p: "truthy (paused (heap w p)) \<and> p < next_ref w \<and>
        (\<forall>b. b \<noteq> a \<longrightarrow> pro_states w b \<noteq> Some p)"
  let ?w = "snd (pro_callback ''new'' a w)"
  from p have "truthy (paused (heap ?w p))" "\<forall>b. pro_states ?w b \<noteq> Some p" "p < next_ref ?w"
    by (auto simp: pro_callback_def pro_states_set_def)
  then show "wait_paused p ?w ts tr = None" by (rule wait_paused_unreachable)
qed

theorem new_broadcast_replaces_entry_witness:
  "pro_states_get ex_world 7 = Some ex_state \<and>
   fst (pro_callback ''new'' 7 ex_world) = WaitingForMessage \<and>
   pro_states_get (snd (pro_callback ''new'' 7 ex_world)) 7 = Some wait_msg_state \<and>
   heap (snd (pro_callback ''new'' 7 ex_world)) 0 = ex_state \<and>
   step wait_msg_state = Some ''wait_msg'' \<and>
   fst (process_broadcast ex_photo 7 (snd (pro_callback ''new'' 7 ex_world))) = PreviewReady \<and>
   pro_confirm_cb ''pro:confirm_send'' 7 ex_world = Inr (Launched, Some ex_msg, ex_world) \<and>
   pro_confirm_cb ''pro:confirm_send'' 7 (snd (pro_callback ''new'' 7 ex_world)) = Inl KeyError \<and>
   truthy (paused (heap (snd (pro_callback ''pause'' 7 ex_world)) 0)) \<and>
   wait_paused 0 (snd (pro_callback ''new'' 7 (snd (pro_callback ''pause'' 7 ex_world))))
     [[Callback ''resume'' 7], [Callback ''stop'' 7]] [] = None \<and>
   fst (run_broadcast ex_env 7 ex_msg ex_users ex_world ex_pause_new_sched) = Hung"
proof -
  let ?w = "snd (pro_callback ''new'' 7 ex_world)"
  let ?v = "snd (pro_callback ''pause'' 7 ex_world)"
  note T = new_broadcast_replaces_entry[of 7 ex_world]
  have 0: "pro_states_get ex_world 7 = Some ex_state"
    by (simp add: pro_states_get_def ex_world_def)
  have 1: "fst (pro_callback ''new'' 7 ex_world) = WaitingForMessage"
    using T by (rule conjunct1)
  have 2: "pro_states_get ?w 7 = Some wait_msg_state"
    using T by blast
  have "heap ?w = (heap ex_world)(next_ref ex_world := wait_msg_state)"
    using T by blast
  then have 3: "heap ?w 0 = ex_state" by (simp add: ex_world_def)
  have 4: "step wait_msg_state = Some ''wait_msg''" by (simp add: wait_msg_state_def)
  have 5: "fst (process_broadcast ex_photo 7 ?w) = PreviewReady"
    using new_broadcast_replaces_entry[of 7 ?w ex_photo] 2 4 by blast
  have 7: "msg ex_state = Some ex_msg" by (simp add: ex_state_def)
  have "pro_confirm_cb ''pro:confirm_send'' 7 ex_world =
      (case msg ex_state of None \<Rightarrow> Inl KeyError | Some m' \<Rightarrow> Inr (Launched, Some m', ex_world))"
    using T 0 by blast
  then have 6: "pro_confirm_cb ''pro:confirm_send'' 7 ex_world = Inr (Launched, Some ex_msg, ex_world)"
    unfolding 7 by simp
  have 8: "pro_confirm_cb ''pro:confirm_send'' 7 ?w = Inl KeyError"
    using T by blast
  have 9: "truthy (paused (heap ?v 0))"
    by (simp add: pro_callback_def manage_broadcast_def ex_world_def truthy_def)
  have 10: "0 < next_ref ?v"
    by (simp add: pro_callback_def manage_broadcast_def ex_world_def)
  have 11: "\<forall>b. b \<noteq> 7 \<longrightarrow> pro_states ?v b \<noteq> Some 0"
    by (simp add: pro_callback_def manage_broadcast_def ex_world_def)
  have 12: "wait_paused 0 (snd (pro_callback ''new'' 7 ?v))
      [[Callback ''resume'' 7], [Callback ''stop'' 7]] [] = None"
    using new_broadcast_replaces_entry[of 7 ?v] 9 10 11 by blast
  have 13: "fst (run_broadcast ex_env 7 ex_msg ex_users ex_world ex_pause_new_sched) = Hung"
    by code_simp
  from 0 1 2 3 4 5 6 8 9 12 13 show ?thesis by blast
qed

text \<open>
  Claim C6 as stated fails. The control message is gone, so every edit
  raises; the message is a photo and \<^verbatim>\<open>copy_message\<close> fails, so \<^verbatim>\<open>sent\<close>
  stays 0 and the first iteration already edits. The call ends with that
  error: of the recipients 1, 2 and 5 only the first is attempted, no history
  row is written and the operator's state stays in the registry.
\<close>

theorem failed_edit_counterexample:
  "edit_message_text_raises ex_deleted_env 0 1 \<and>
   resolve_recipients ex_users = [1, 2, 5] \<and>
   fst (run_broadcast ex_deleted_env 7 ex_photo ex_users ex_world []) = Raised \<and>
   trace (snd (run_broadcast ex_deleted_env 7 ex_photo ex_users ex_world [])) =
     [ControlMessage 5 3, CopyMessage 1 5 9, LogWarning 1, Sleep pro_delay,
      EditMessageText 5 0 3 1] \<and>
   attempts (trace (snd (run_broadcast ex_deleted_env 7 ex_photo ex_users ex_world []))) = [1] \<and>
   broadcast_history (shared (snd (run_broadcast ex_deleted_env 7 ex_photo ex_users ex_world []))) = [] \<and>
   pro_states (shared (snd (run_broadcast ex_deleted_env 7 ex_photo ex_users ex_world []))) 7 = Some 0"
  by code_simp

text \<open>
  Claim C6 as amended. A failing edit of the progress control message is not
  caught by \<^verbatim>\<open>run_broadcast\<close>: the call ends with that error. The failing edit
  is then the last effect of the worker and the only edit that failed; the
  recipients attempted are those up to the current one; no history row is
  written, no tally is posted and the worker does not remove the state from
  the registry. A call that ends in any other way has seen no edit fail.
\<close>

theorem failed_edit_ends_worker:
  assumes "run_broadcast e a m users w ts = (k, r)"
  shows "(k = Raised \<longrightarrow>
            raising_edits e (trace r) = [(sent r, failed r)] \<and>
            trace r \<noteq> [] \<and>
            last (trace r) =
              EditMessageText (chat_id m) (sent r) (length (resolve_recipients users)) (failed r) \<and>
            edit_message_text_raises e (sent r) (failed r) \<and>
            attempts (trace r) = take (sent r + failed r) (resolve_recipients users) \<and>
            filter is_closing (trace r) = [] \<and>
            broadcast_history (shared r) = broadcast_history w) \<and>
         (k \<noteq> Raised \<longrightarrow> raising_edits e (trace r) = [])"
proof -
  let ?ids = "resolve_recipients users"
  let ?s0 = "bc_start m (length ?ids) w ts"
  let ?l = "bc_loop e a m ?ids ?ids ?s0"
  have l: "?l = (fst ?l, snd ?l)" by simp
  note E = bc_loop_edits[OF l]
  note S = bc_loop_store[OF l]
  have raised: "raising_edits e (trace r) = [(sent r, failed r)] \<and>
            trace r \<noteq> [] \<and>
            last (trace r) = EditMessageText (chat_id m) (sent r) (length ?ids) (failed r) \<and>
            edit_message_text_raises e (sent r) (failed r) \<and>
            attempts (trace r) = take (sent r + failed r) ?ids \<and>
            filter is_closing (trace r) = [] \<and>
            broadcast_history (shared r) = broadcast_history w" if k: "k = Raised"
  proof -
    from assms k have f: "fst ?l = Raised" and r: "r = snd ?l"
      by (auto simp: run_broadcast_unfold Let_def split: if_splits)
    from run_broadcast_result[OF assms] have
      "attempts (trace r) = take (sent r + failed r) ?ids" by auto
    with E(1) E(3)[OF f] S show ?thesis
      by (simp add: r bc_start_quiet bc_start_store)
  qed
  have other: "raising_edits e (trace r) = []" if k: "k \<noteq> Raised"
  proof -
    from assms k have f: "fst ?l \<noteq> Raised"
      and r: "r = snd ?l \<or> r = bc_finish e a m (length ?ids) (snd ?l)"
      by (auto simp: run_broadcast_unfold Let_def split: if_splits)
    from E(2)[OF f] r show ?thesis
      by (auto simp: bc_start_quiet bc_finish_fields raising_edits_append)
  qed
  from raised other show ?thesis by blast
qed

theorem failed_edit_ends_worker_witness:
  "fst (run_broadcast ex_deleted_env 7 ex_photo ex_users ex_world []) = Raised \<and>
   raising_edits ex_deleted_env
     (trace (snd (run_broadcast ex_deleted_env 7 ex_photo ex_users ex_world []))) = [(0, 1)] \<and>
   last (trace (snd (run_broadcast ex_deleted_env 7 ex_photo ex_users ex_world []))) =
     EditMessageText 5 0 3 1 \<and>
   filter is_closing (trace (snd (run_broadcast ex_deleted_env 7 ex_photo ex_users ex_world []))) = [] \<and>
   fst (run_broadcast ex_env 7 ex_photo ex_users ex_world []) = Completed \<and>
   raising_edits ex_env (trace (snd (run_broadcast ex_env 7 ex_photo ex_users ex_world []))) = []"
proof -
  let ?bad = "run_broadcast ex_deleted_env 7 ex_photo ex_users ex_world []"
  let ?good = "run_broadcast ex_env 7 ex_photo ex_users ex_world []"
  have kb: "fst ?bad = Raised" by code_simp
  have kg: "fst ?good = Completed" by code_simp
  have n: "sent (snd ?bad) = 0" "failed (snd ?bad) = 1" by code_simp+
  have ids: "length (resolve_recipients ex_users) = 3"
    by (simp add: resolve_recipients_def ex_users_def)
  have m: "chat_id ex_photo = 5" by (simp add: ex_photo_def)
  have rb: "?bad = (fst ?bad, snd ?bad)" and rg: "?good = (fst ?good, snd ?good)" by simp_all
  note B = failed_edit_ends_worker[OF rb, THEN conjunct1, rule_format, OF kb, unfolded n ids m]
  have g: "fst ?good \<noteq> Raised" using kg by simp
  note G = failed_edit_ends_worker[OF rg, THEN conjunct2, rule_format, OF g]
  from kb B kg G show ?thesis by blast
qed

text \<open>
  Claim C7 as stated fails on the PRO broadcast. With the default rate of 20
  messages per minute the delay between two recipients would be 3 seconds;
  \<^verbatim>\<open>run_broadcast\<close> attempts three recipients and requests twice the float
  0.05 seconds between the first and the last attempt, less than the 6
  seconds of the bound.
\<close>

theorem pro_broadcast_ignores_rate_counterexample:
  "simple_delay ex_env 20 = 3 \<and>
   fst (run_broadcast ex_env 7 ex_msg ex_users ex_world []) = Completed \<and>
   length (attempts (trace (snd (run_broadcast ex_env 7 ex_msg ex_users ex_world [])))) = 3 \<and>
   delay_between (trace (snd (run_broadcast ex_env 7 ex_msg ex_users ex_world []))) = 2 * pro_delay \<and>
   delay_between (trace (snd (run_broadcast ex_env 7 ex_msg ex_users ex_world []))) <
     of_nat (3 - 1) * simple_delay ex_env 20"
  by code_simp

text \<open>
  Claim C7 as amended. In the simple broadcast with rate \<open>R\<close>: when
  \<open>R \<le> 0\<close> no delay is requested at all; when \<open>R > 0\<close> the float that
  \<^verbatim>\<open>60.0 / R\<close> evaluates to is requested after every recipient, so that the
  delays requested between the first and the last transport call of \<open>K\<close>
  recipients add up to \<open>K - 1\<close> times that float, which differs from
  \<open>(K - 1) * 60 / R\<close> seconds by at most \<open>K - 1\<close> times the rounding error of
  the division. The PRO broadcast does not read the rate: it requests the
  float 0.05 seconds after every attempted recipient and one second for every
  poll of a paused wait, so that the delays between its first and last
  attempt add up to at least that float times the number of attempts less
  one, and to exactly as much in a run that never polls.
\<close>

theorem requested_delays:
  assumes flow: "admin_broadcast_flow e rate m users = (n, f, tr)"
    and run: "run_broadcast e a m users w ts = (k, r)"
  shows "(rate \<le> 0 \<longrightarrow> (\<forall>d. Sleep d \<notin> set tr) \<and> delay_between tr = 0) \<and>
         (0 < rate \<longrightarrow>
            sleeps tr = of_nat (length (resolve_recipients users)) * float_quot e rate \<and>
            delay_between tr = of_nat (length (resolve_recipients users) - 1) * float_quot e rate \<and>
            (\<forall>eps. \<bar>float_quot e rate - 60 / of_int rate\<bar> \<le> eps \<longrightarrow>
               \<bar>delay_between tr - of_nat (length (resolve_recipients users) - 1) * (60 / of_int rate)\<bar>
                 \<le> of_nat (length (resolve_recipients users) - 1) * eps)) \<and>
         \<bar>pro_delay - 1 / 20\<bar> < 1 / 10 ^ 17 \<and>
         of_nat (length (attempts (trace r)) - 1) * pro_delay \<le> delay_between (trace r) \<and>
         (Sleep 1 \<notin> set (trace r) \<longrightarrow>
            delay_between (trace r) = of_nat (length (attempts (trace r)) - 1) * pro_delay) \<and>
         (k = Completed \<longrightarrow>
            of_nat (length (resolve_recipients users) - 1) * pro_delay \<le> delay_between (trace r))"
proof -
  let ?ids = "resolve_recipients users"
  let ?d = "simple_delay e rate"
  from flow obtain tr0 where
    l: "simple_loop e m ?d ?ids (0, 0, []) = (n, f, tr0)" and tr: "tr = tr0 @ [Report n f]"
    by (auto simp: admin_broadcast_flow_def Let_def split: prod.splits)
  have s0: "sleeps [] = 0" by (simp add: sleeps_def)
  note L = simple_loop_delays[OF l, unfolded dropWhile.simps s0 add_0]
  have q: "attempts [Report n f] = []" by simp
  have db: "delay_between tr = of_nat (length ?ids - 1) * ?d"
  proof (cases "?ids = []")
    case True
    with L have "tr0 = []" by simp
    with True show ?thesis by (simp add: tr delay_between_def sleeps_def)
  next
    case False
    with L have "delay_between tr0 = of_nat (length ?ids - 1) * ?d" by simp
    then show ?thesis unfolding tr by (simp only: after_quiet(1)[OF q])
  qed
  have sl: "sleeps tr = of_nat (length ?ids) * ?d"
    using L by (simp add: tr sleeps_append) (simp add: sleeps_def)
  have 1: "(\<forall>d. Sleep d \<notin> set tr) \<and> delay_between tr = 0" if "rate \<le> 0"
  proof -
    from that have z: "?d = 0" by (simp add: simple_delay_def)
    have "Sleep x \<notin> set tr0" for x
      using simple_loop_no_sleep[OF l[unfolded z], of x] by auto
    with db z show ?thesis by (simp add: tr)
  qed
  have 2: "sleeps tr = of_nat (length ?ids) * float_quot e rate \<and>
      delay_between tr = of_nat (length ?ids - 1) * float_quot e rate \<and>
      (\<forall>eps. \<bar>float_quot e rate - 60 / of_int rate\<bar> \<le> eps \<longrightarrow>
         \<bar>delay_between tr - of_nat (length ?ids - 1) * (60 / of_int rate)\<bar>
           \<le> of_nat (length ?ids - 1) * eps)" if "0 < rate"
  proof (intro conjI allI impI)
    from that sl show "sleeps tr = of_nat (length ?ids) * float_quot e rate"
      by (simp add: simple_delay_def)
    from that db show d: "delay_between tr = of_nat (length ?ids - 1) * float_quot e rate"
      by (simp add: simple_delay_def)
    fix eps :: rat
    assume e: "\<bar>float_quot e rate - 60 / of_int rate\<bar> \<le> eps"
    have "delay_between tr - of_nat (length ?ids - 1) * (60 / of_int rate) =
        of_nat (length ?ids - 1) * (float_quot e rate - 60 / of_int rate)"
      unfolding d by (simp add: right_diff_distrib)
    then have "\<bar>delay_between tr - of_nat (length ?ids - 1) * (60 / of_int rate)\<bar> =
        of_nat (length ?ids - 1) * \<bar>float_quot e rate - 60 / of_int rate\<bar>"
      by (simp add: abs_mult)
    also from e have "\<dots> \<le> of_nat (length ?ids - 1) * eps"
      by (rule mult_left_mono) simp
    finally show "\<bar>delay_between tr - of_nat (length ?ids - 1) * (60 / of_int rate)\<bar>
        \<le> of_nat (length ?ids - 1) * eps" .
  qed
  have 3: "\<bar>pro_delay - 1 / 20\<bar> < 1 / 10 ^ 17" by (simp add: pro_delay_def)
  note 4 = run_broadcast_paced[OF run]
  have 5: "of_nat (length ?ids - 1) * pro_delay \<le> delay_between (trace r)" if "k = Completed"
  proof -
    from run_broadcast_result[OF run] that have "attempts (trace r) = ?ids" by auto
    with 4 show ?thesis by simp
  qed
  from 1 2 3 4 5 show ?thesis by blast
qed

theorem requested_delays_witness:
  "(0 :: int) < 20 \<and>
   sleeps (snd (snd (admin_broadcast_flow ex_env 20 ex_msg ex_users))) = 9 \<and>
   delay_between (snd (snd (admin_broadcast_flow ex_env 20 ex_msg ex_users))) = 6 \<and>
   (0 :: int) \<le> 0 \<and>
   Sleep 3 \<notin> set (snd (snd (admin_broadcast_flow ex_env 0 ex_msg ex_users))) \<and>
   fst (run_broadcast ex_env 7 ex_msg ex_users ex_world ex_stop_sched) = Broke \<and>
   Sleep 1 \<notin> set (trace (snd (run_broadcast ex_env 7 ex_msg ex_users ex_world ex_stop_sched))) \<and>
   delay_between (trace (snd (run_broadcast ex_env 7 ex_msg ex_users ex_world ex_stop_sched))) =
     pro_delay \<and>
   fst (run_broadcast ex_env 7 ex_msg ex_users ex_world ex_pause_mid_sched) = Completed \<and>
   2 * pro_delay \<le>
     delay_between (trace (snd (run_broadcast ex_env 7 ex_msg ex_users ex_world ex_pause_mid_sched))) \<and>
   delay_between (trace (snd (run_broadcast ex_env 7 ex_msg ex_users ex_world ex_pause_mid_sched))) =
     2 + 2 * pro_delay"
proof -
  let ?f20 = "admin_broadcast_flow ex_env 20 ex_msg ex_users"
  let ?f0 = "admin_broadcast_flow ex_env 0 ex_msg ex_users"
  let ?run = "run_broadcast ex_env 7 ex_msg ex_users ex_world ex_stop_sched"
  let ?prun = "run_broadcast ex_env 7 ex_msg ex_users ex_world ex_pause_mid_sched"
  have f20: "?f20 = (fst ?f20, fst (snd ?f20), snd (snd ?f20))"
    and f0: "?f0 = (fst ?f0, fst (snd ?f0), snd (snd ?f0))"
    and r: "?run = (fst ?run, snd ?run)"
    and pr: "?prun = (fst ?prun, snd ?prun)" by simp_all
  have ids: "length (resolve_recipients ex_users) = 3"
    by (simp add: resolve_recipients_def ex_users_def)
  have fq: "float_quot ex_env 20 = 3" by (simp add: ex_env_def)
  have p: "(0 :: int) < 20" and z: "(0 :: int) \<le> 0" by simp_all
  note A = requested_delays[OF f20 r, THEN conjunct2, THEN conjunct1, rule_format, OF p,
    unfolded ids fq]
  note B = requested_delays[OF f0 r, THEN conjunct1, rule_format, OF z]
  note C = requested_delays[OF f20 r, THEN conjunct2, THEN conjunct2, THEN conjunct2,
    THEN conjunct2, THEN conjunct1, rule_format]
  note D = requested_delays[OF f20 pr, THEN conjunct2, THEN conjunct2, THEN conjunct2,
    THEN conjunct2, THEN conjunct2, rule_format]
  have k: "fst ?run = Broke" by code_simp
  have n: "length (attempts (trace (snd ?run))) = 2" by code_simp
  have np: "Sleep 1 \<notin> set (trace (snd ?run))" by code_simp
  have pk: "fst ?prun = Completed" by code_simp
  have pv: "delay_between (trace (snd ?prun)) = 2 + 2 * pro_delay" by code_simp
  from A have a: "sleeps (snd (snd ?f20)) = 9 \<and> delay_between (snd (snd ?f20)) = 6" by simp
  from B have b: "Sleep 3 \<notin> set (snd (snd ?f0))" by blast
  from C[OF np] have c: "delay_between (trace (snd ?run)) = pro_delay" unfolding n by simp
  from D[OF pk] have d: "2 * pro_delay \<le> delay_between (trace (snd ?prun))"
    unfolding ids by simp
  from p a z b k np c pk d pv show ?thesis by blast
qed

text \<open>
  Claim C8. When \<^verbatim>\<open>run_broadcast\<close> ends by running out of recipients or by
  \<^verbatim>\<open>break\<close>, its trace holds exactly one history insert and the table has
  grown by exactly that row. The text stored in the row is at most 4000
  characters long: the first 4000 characters of the text when the message has
  a non-empty one, else of the caption, else the empty string.
\<close>

theorem one_history_row_per_batch:
  assumes run: "run_broadcast e a m users w ts = (k, r)"
    and k: "k = Completed \<or> k = Broke"
  shows "inserts (trace r) = [new_row e w a m (sent r) (length (resolve_recipients users))] \<and>
         broadcast_history (shared r) =
           broadcast_history w @ [new_row e w a m (sent r) (length (resolve_recipients users))] \<and>
         message_text (new_row e w a m (sent r) (length (resolve_recipients users))) = Some (stored_text m) \<and>
         length (stored_text m) \<le> 4000 \<and>
         (\<forall>t. msg_text m = Some t \<and> t \<noteq> [] \<longrightarrow> stored_text m = take 4000 t) \<and>
         (\<forall>c. \<not> nonempty (msg_text m) \<and> msg_caption m = Some c \<longrightarrow> stored_text m = take 4000 c) \<and>
         (\<not> nonempty (msg_text m) \<and> msg_caption m = None \<longrightarrow> stored_text m = [])"
proof -
  let ?ids = "resolve_recipients users"
  let ?s0 = "bc_start m (length ?ids) w ts"
  let ?l = "bc_loop e a m ?ids ?ids ?s0"
  from run k have r: "r = bc_finish e a m (length ?ids) (snd ?l)"
    by (auto simp: run_broadcast_unfold Let_def split: if_splits)
  have l: "?l = (fst ?l, snd ?l)" by simp
  note st = bc_loop_store[OF l]
  have row: "new_row e (shared (snd ?l)) a m (sent (snd ?l)) (length ?ids) =
      new_row e w a m (sent (snd ?l)) (length ?ids)"
    by (rule new_row_seq) (simp add: st bc_start_store)
  have 1: "inserts (trace r) = [new_row e w a m (sent r) (length ?ids)]"
    by (simp add: r bc_finish_inserts bc_finish_fields(1,2) row st bc_start_fields)
  have 2: "broadcast_history (shared r) = broadcast_history w @ [new_row e w a m (sent r) (length ?ids)]"
    by (simp add: r bc_finish_store bc_finish_fields(1,2) row st bc_start_store)
  have 3: "message_text (new_row e w a m (sent r) (length ?ids)) = Some (stored_text m)"
    by (simp add: new_row_def)
  have 4: "\<forall>t. msg_text m = Some t \<and> t \<noteq> [] \<longrightarrow> stored_text m = take 4000 t"
    by (simp add: stored_text_def nonempty_def or_empty_def)
  have 5: "\<forall>c. \<not> nonempty (msg_text m) \<and> msg_caption m = Some c \<longrightarrow> stored_text m = take 4000 c"
    by (auto simp: stored_text_def nonempty_def or_empty_def)
  have 6: "\<not> nonempty (msg_text m) \<and> msg_caption m = None \<longrightarrow> stored_text m = []"
    by (simp add: stored_text_def nonempty_def or_empty_def)
  from 1 2 3 stored_text_length 4 5 6 show ?thesis by blast
qed

theorem one_history_row_per_batch_witness:
  "fst (run_broadcast ex_env 7 ex_photo ex_users ex_world []) = Completed \<and>
   inserts (trace (snd (run_broadcast ex_env 7 ex_photo ex_users ex_world []))) =
     [\<lparr>row_id = 1, created_at = 1000, admin_id = 7, row_type = Some ''pro'',
       media_type = Some ''photo'', sent_count = 0, total_users = 3,
       message_text = Some ''sale''\<rparr>] \<and>
   broadcast_history (shared (snd (run_broadcast ex_env 7 ex_photo ex_users ex_world []))) =
     [\<lparr>row_id = 1, created_at = 1000, admin_id = 7, row_type = Some ''pro'',
       media_type = Some ''photo'', sent_count = 0, total_users = 3,
       message_text = Some ''sale''\<rparr>] \<and>
   stored_text ex_photo = take 4000 ''sale''"
proof -
  let ?run = "run_broadcast ex_env 7 ex_photo ex_users ex_world []"
  have k: "fst ?run = Completed" by code_simp
  have n: "sent (snd ?run) = 0" by code_simp
  have ids: "resolve_recipients ex_users = [1, 2, 5]"
    by (simp add: resolve_recipients_def ex_users_def)
  have r: "?run = (fst ?run, snd ?run)" by simp
  have c: "\<not> nonempty (msg_text ex_photo) \<and> msg_caption ex_photo = Some ''sale''"
    by (simp add: ex_photo_def nonempty_def)
  note T = one_history_row_per_batch[OF r disjI1[OF k]]
  from T c have "stored_text ex_photo = take 4000 ''sale''" by blast
  moreover have "inserts (trace (snd ?run)) =
     [\<lparr>row_id = 1, created_at = 1000, admin_id = 7, row_type = Some ''pro'',
       media_type = Some ''photo'', sent_count = 0, total_users = 3,
       message_text = Some ''sale''\<rparr>] \<and>
   broadcast_history (shared (snd ?run)) =
     [\<lparr>row_id = 1, created_at = 1000, admin_id = 7, row_type = Some ''pro'',
       media_type = Some ''photo'', sent_count = 0, total_users = 3,
       message_text = Some ''sale''\<rparr>]"
    using T n ids
    by (simp add: ex_env_def ex_photo_def ex_world_def new_row_def stored_text_def
        nonempty_def or_empty_def)
  ultimately show ?thesis using k by blast
qed

text \<open>
  Claim C9 as stated fails. A row whose text is \<^verbatim>\<open>a,b\<close> is exported with the
  comma in place, between double quotes.
\<close>

theorem export_keeps_commas_in_text_counterexample:
  "message_text ex_row = Some ''a,b'' \<and>
   csv_message_text ex_row = ''a,b'' \<and>
   export_cb str_int 2000 ''all'' [ex_row] =
     Document ''broadcast-history-all.csv''
       (''id,created_at,admin_id,type,media_type,sent_count,total_users,message_text'' @ [CHR 0x0A] @
        ''1,'' @ [CHR 0x22] @ ''1000'' @ [CHR 0x22] @ '',7,pro,text,1,2,'' @
        [CHR 0x22] @ ''a,b'' @ [CHR 0x22] @ [CHR 0x0A])"
  by code_simp

text \<open>
  Claim C9 as amended. For each filter (\<^verbatim>\<open>last7\<close>: created within the last
  7 days, \<^verbatim>\<open>last30\<close>: within the last 30 days, anything else: all rows) the
  export answers that nothing was found exactly when no row matches;
  otherwise it sends a document that is the header line followed by one line
  per matching row, the rows being the matching rows ordered by creation time,
  newest first. A line has the eight fields in the order of the header,
  separated by commas, with \<^verbatim>\<open>created_at\<close> and \<^verbatim>\<open>message_text\<close> between double
  quotes; a missing free-text field is written as the empty string. In
  \<^verbatim>\<open>type\<close> and \<^verbatim>\<open>media_type\<close> every comma is replaced by a space and every
  other character, double quotes and newlines included, is kept. In
  \<^verbatim>\<open>message_text\<close> every double quote is replaced by a single quote and every
  line feed and carriage return by a space, so that none of the three is
  left, and every other character, commas included, is kept.
\<close>

theorem export_csv_shape:
  assumes "kind \<noteq> ''back''"
  shows "export_where now ''last7'' r = (now - 7 * 86400 < created_at r) \<and>
         export_where now ''last30'' r = (now - 30 * 86400 < created_at r) \<and>
         export_where now ''all'' r \<and>
         (export_cb strftime now kind tbl = NothingFound) =
           (filter (export_where now kind) tbl = []) \<and>
         (filter (export_where now kind) tbl \<noteq> [] \<longrightarrow>
            export_cb strftime now kind tbl =
              Document (''broadcast-history-'' @ export_title kind @ ''.csv'')
                (''id,created_at,admin_id,type,media_type,sent_count,total_users,message_text'' @
                 [CHR 0x0A] @
                 concat (map (\<lambda>r. csv_line strftime r @ [CHR 0x0A]) (export_rows now kind tbl)))) \<and>
         mset (export_rows now kind tbl) = mset (filter (export_where now kind) tbl) \<and>
         sorted (rev (map created_at (export_rows now kind tbl))) \<and>
         CHR '','' \<notin> set (csv_type r) \<and>
         CHR '','' \<notin> set (csv_media_type r) \<and>
         CHR 0x22 \<notin> set (csv_message_text r) \<and>
         CHR 0x0A \<notin> set (csv_message_text r) \<and>
         CHR 0x0D \<notin> set (csv_message_text r) \<and>
         length (csv_message_text r) = length (or_empty (message_text r)) \<and>
         filter (\<lambda>x. x = CHR '','') (csv_message_text r) =
           filter (\<lambda>x. x = CHR '','') (or_empty (message_text r)) \<and>
         csv_line strftime r =
           str_int (row_id r) @ '','' @ [CHR 0x22] @ strftime (created_at r) @ [CHR 0x22] @ '','' @
           str_int (admin_id r) @ '','' @ csv_type r @ '','' @ csv_media_type r @ '','' @
           str_int (sent_count r) @ '','' @ str_int (total_users r) @ '','' @
           [CHR 0x22] @ csv_message_text r @ [CHR 0x22] \<and>
         csv_type r =
           map (\<lambda>c. if c = CHR '','' then CHR '' '' else c)
             (case row_type r of None \<Rightarrow> [] | Some t \<Rightarrow> t) \<and>
         csv_media_type r =
           map (\<lambda>c. if c = CHR '','' then CHR '' '' else c)
             (case media_type r of None \<Rightarrow> [] | Some t \<Rightarrow> t) \<and>
         csv_message_text r =
           map (\<lambda>c. if c = CHR 0x22 then CHR 0x27
                     else if c = CHR 0x0A \<or> c = CHR 0x0D then CHR '' '' else c)
             (case message_text r of None \<Rightarrow> [] | Some t \<Rightarrow> t)"
proof -
  have w: "export_where now ''last7'' r = (now - 7 * 86400 < created_at r)"
    "export_where now ''last30'' r = (now - 30 * 86400 < created_at r)"
    "export_where now ''all'' r"
    by (simp_all add: export_where_def)
  have n: "(export_cb strftime now kind tbl = NothingFound) =
           (filter (export_where now kind) tbl = [])"
    using assms by (simp add: export_cb_def Let_def export_rows_empty)
  have d: "filter (export_where now kind) tbl \<noteq> [] \<longrightarrow>
            export_cb strftime now kind tbl =
              Document (''broadcast-history-'' @ export_title kind @ ''.csv'')
                (''id,created_at,admin_id,type,media_type,sent_count,total_users,message_text'' @
                 [CHR 0x0A] @
                 concat (map (\<lambda>r. csv_line strftime r @ [CHR 0x0A]) (export_rows now kind tbl)))"
    using assms
    by (simp add: export_cb_def Let_def export_rows_empty write_rows_concat csv_header_def)
  have c: "CHR '','' \<notin> set (csv_type r)" "CHR '','' \<notin> set (csv_media_type r)"
    by (simp_all add: csv_type_def csv_media_type_def replace_removes)
  have l: "length (csv_message_text r) = length (or_empty (message_text r))"
    by (simp add: csv_message_text_def length_replace)
  have y: "csv_line strftime r =
           str_int (row_id r) @ '','' @ [CHR 0x22] @ strftime (created_at r) @ [CHR 0x22] @ '','' @
           str_int (admin_id r) @ '','' @ csv_type r @ '','' @ csv_media_type r @ '','' @
           str_int (sent_count r) @ '','' @ str_int (total_users r) @ '','' @
           [CHR 0x22] @ csv_message_text r @ [CHR 0x22]"
    by (simp add: csv_line_def)
  have o: "or_empty x = (case x of None \<Rightarrow> [] | Some t \<Rightarrow> t)" for x
    by (cases x) (simp_all add: or_empty_def)
  have p: "csv_type r =
           map (\<lambda>c. if c = CHR '','' then CHR '' '' else c)
             (case row_type r of None \<Rightarrow> [] | Some t \<Rightarrow> t)"
    "csv_media_type r =
           map (\<lambda>c. if c = CHR '','' then CHR '' '' else c)
             (case media_type r of None \<Rightarrow> [] | Some t \<Rightarrow> t)"
    by (simp_all add: csv_type_def csv_media_type_def replace_def o)
  have q: "csv_message_text r =
           map (\<lambda>c. if c = CHR 0x22 then CHR 0x27
                     else if c = CHR 0x0A \<or> c = CHR 0x0D then CHR '' '' else c)
             (case message_text r of None \<Rightarrow> [] | Some t \<Rightarrow> t)"
    by (simp add: csv_message_text_def replace_def o)
  from w n d export_rows_mset export_rows_newest_first c csv_message_text_clean l
    csv_message_text_commas y p q
  show ?thesis by blast
qed

theorem export_csv_shape_witness:
  "''last7'' \<noteq> ''back'' \<and>
   filter (export_where 2000 ''last7'') [ex_row, ex_row2] \<noteq> [] \<and>
   map row_id (export_rows 2000 ''last7'' [ex_row, ex_row2]) = [2, 1] \<and>
   export_cb str_int 2000 ''last7'' [ex_row, ex_row2] =
     Document ''broadcast-history-last7.csv''
       (''id,created_at,admin_id,type,media_type,sent_count,total_users,message_text'' @ [CHR 0x0A] @
        ''2,'' @ [CHR 0x22] @ ''1500'' @ [CHR 0x22] @ '',7,pro,a v,0,2,'' @
        [CHR 0x22, CHR ''x'', CHR 0x27, CHR '' '', CHR ''y'', CHR 0x22] @ [CHR 0x0A] @
        ''1,'' @ [CHR 0x22] @ ''1000'' @ [CHR 0x22] @ '',7,pro,text,1,2,'' @
        [CHR 0x22] @ ''a,b'' @ [CHR 0x22] @ [CHR 0x0A]) \<and>
   csv_type (ex_row\<lparr>row_type := Some [CHR 0x22, CHR '','', CHR 0x0A]\<rparr>) =
     [CHR 0x22, CHR '' '', CHR 0x0A] \<and>
   csv_media_type (ex_row\<lparr>media_type := None\<rparr>) = [] \<and>
   csv_message_text (ex_row\<lparr>message_text := Some [CHR 0x0D, CHR ''Q'', CHR '','']\<rparr>) =
     [CHR '' '', CHR ''Q'', CHR '',''] \<and>
   export_cb str_int 2000000 ''last7'' [ex_row, ex_row2] = NothingFound"
proof -
  have k: "''last7'' \<noteq> ''back''" by simp
  note T = export_csv_shape[OF k, where now = 2000 and tbl = "[ex_row, ex_row2]"
      and strftime = str_int]
  note U = export_csv_shape[OF k, where now = 2000000 and tbl = "[ex_row, ex_row2]"
      and strftime = str_int]
  have f: "filter (export_where 2000 ''last7'') [ex_row, ex_row2] \<noteq> []"
    by (simp add: export_where_def ex_row_def)
  have rows: "export_rows 2000 ''last7'' [ex_row, ex_row2] = [ex_row2, ex_row]"
    by (simp add: export_rows_def export_where_def ex_row_def ex_row2_def)
  have t: "export_title ''last7'' = ''last7''" by (simp add: export_title_def)
  have "export_cb str_int 2000 ''last7'' [ex_row, ex_row2] =
     Document (''broadcast-history-'' @ export_title ''last7'' @ ''.csv'')
       (''id,created_at,admin_id,type,media_type,sent_count,total_users,message_text'' @ [CHR 0x0A] @
        concat (map (\<lambda>r. csv_line str_int r @ [CHR 0x0A])
                  (export_rows 2000 ''last7'' [ex_row, ex_row2])))"
    using T f by blast
  then have d: "export_cb str_int 2000 ''last7'' [ex_row, ex_row2] =
     Document ''broadcast-history-last7.csv''
       (''id,created_at,admin_id,type,media_type,sent_count,total_users,message_text'' @ [CHR 0x0A] @
        csv_line str_int ex_row2 @ [CHR 0x0A] @ csv_line str_int ex_row @ [CHR 0x0A])"
    by (simp add: rows t)
  have l2: "csv_line str_int ex_row2 =
      ''2,'' @ [CHR 0x22] @ ''1500'' @ [CHR 0x22] @ '',7,pro,a v,0,2,'' @
      [CHR 0x22, CHR ''x'', CHR 0x27, CHR '' '', CHR ''y'', CHR 0x22]"
    by code_simp
  have l1: "csv_line str_int ex_row =
      ''1,'' @ [CHR 0x22] @ ''1000'' @ [CHR 0x22] @ '',7,pro,text,1,2,'' @
      [CHR 0x22] @ ''a,b'' @ [CHR 0x22]"
    by code_simp
  note d' = d[unfolded l1 l2]
  have e: "filter (export_where 2000000 ''last7'') [ex_row, ex_row2] = []"
    by (simp add: export_where_def ex_row_def ex_row2_def)
  have nf: "export_cb str_int 2000000 ''last7'' [ex_row, ex_row2] = NothingFound"
    using U e by blast
  have m1: "csv_type (ex_row\<lparr>row_type := Some [CHR 0x22, CHR '','', CHR 0x0A]\<rparr>) =
      [CHR 0x22, CHR '' '', CHR 0x0A]"
    using export_csv_shape[OF k, where r = "ex_row\<lparr>row_type := Some [CHR 0x22, CHR '','', CHR 0x0A]\<rparr>"]
    by simp
  have m2: "csv_media_type (ex_row\<lparr>media_type := None\<rparr>) = []"
    using export_csv_shape[OF k, where r = "ex_row\<lparr>media_type := None\<rparr>"] by simp
  have m3: "csv_message_text (ex_row\<lparr>message_text := Some [CHR 0x0D, CHR ''Q'', CHR '','']\<rparr>) =
      [CHR '' '', CHR ''Q'', CHR '','']"
    using export_csv_shape[OF k, where r = "ex_row\<lparr>message_text := Some [CHR 0x0D, CHR ''Q'', CHR '','']\<rparr>"]
    by simp
  have i: "map row_id (export_rows 2000 ''last7'' [ex_row, ex_row2]) = [2, 1]"
    unfolding rows by (simp add: ex_row_def ex_row2_def)
  from k f i d' m1 m2 m3 nf show ?thesis by simp
qed

text \<open>
  Claim C10. When the registry has no entry for the operator as the loop
  starts, \<^verbatim>\<open>run_broadcast\<close> attempts no recipient; it still inserts one history
  row with \<^verbatim>\<open>sent_count = 0\<close> and \<^verbatim>\<open>total_users\<close> the number of resolved
  recipients, and still posts the final tally to the operator's chat.
\<close>

theorem missing_state_sends_nothing_but_records:
  assumes ids: "ids = resolve_recipients users"
    and none: "pro_states (shared (bc_start m (length ids) w ts)) a = None"
    and run: "run_broadcast e a m users w ts = (k, r)"
  shows "attempts (trace r) = [] \<and> sent r = 0 \<and> failed r = 0 \<and>
         trace r = [ControlMessage (chat_id m) (length ids),
                    HistoryInsert (new_row e w a m 0 (length ids)),
                    Tally (chat_id m) 0 (length ids) 0,
                    PopState a] \<and>
         broadcast_history (shared r) = broadcast_history w @ [new_row e w a m 0 (length ids)] \<and>
         sent_count (new_row e w a m 0 (length ids)) = 0 \<and>
         total_users (new_row e w a m 0 (length ids)) = int (length ids)"
proof -
  let ?s0 = "bc_start m (length ids) w ts"
  have b: "bc_boundary e a m ids (take 0 ids) ?s0 = Some ?s0" by simp
  from none have c: "case pro_states (shared ?s0) a of None \<Rightarrow> True
            | Some p \<Rightarrow> truthy (stopped (heap (shared ?s0) p))" by simp
  from run_broadcast_break[OF ids refl _ b c] run
  have r: "r = bc_finish e a m (length ids) ?s0" by simp
  have row: "new_row e (shared (suspend ?s0)) a m 0 (length ids) = new_row e w a m 0 (length ids)"
    "new_row e (shared ?s0) a m 0 (length ids) = new_row e w a m 0 (length ids)"
    by (rule new_row_seq, simp add: suspend_store bc_start_store)+
  show ?thesis
    by (simp add: r bc_finish_fields bc_finish_store bc_start_fields bc_start_store row
        attempts_append)
       (simp add: new_row_def)
qed

theorem missing_state_sends_nothing_but_records_witness:
  "pro_states (shared (bc_start ex_msg 3 ex_world ex_cancel_sched)) 7 = None \<and>
   attempts (trace (snd (run_broadcast ex_env 7 ex_msg ex_users ex_world ex_cancel_sched))) = [] \<and>
   trace (snd (run_broadcast ex_env 7 ex_msg ex_users ex_world ex_cancel_sched)) =
     [ControlMessage 5 3,
      HistoryInsert \<lparr>row_id = 1, created_at = 1000, admin_id = 7, row_type = Some ''pro'',
        media_type = Some ''text'', sent_count = 0, total_users = 3,
        message_text = Some ''hi''\<rparr>,
      Tally 5 0 3 0,
      PopState 7]"
proof -
  let ?run = "run_broadcast ex_env 7 ex_msg ex_users ex_world ex_cancel_sched"
  have h1: "[1, 2, 5] = resolve_recipients ex_users"
    by (simp add: resolve_recipients_def ex_users_def)
  have h0: "pro_states (shared (bc_start ex_msg 3 ex_world ex_cancel_sched)) 7 = None"
    by code_simp
  then have h2: "pro_states (shared (bc_start ex_msg (length [1, 2, 5 :: int]) ex_world ex_cancel_sched)) 7 = None"
    by (simp add: numeral_3_eq_3)
  have r: "?run = (fst ?run, snd ?run)" by simp
  note T = missing_state_sends_nothing_but_records[OF h1 h2 r]
  have "attempts (trace (snd ?run)) = [] \<and>
   trace (snd ?run) =
     [ControlMessage 5 3,
      HistoryInsert \<lparr>row_id = 1, created_at = 1000, admin_id = 7, row_type = Some ''pro'',
        media_type = Some ''text'', sent_count = 0, total_users = 3,
        message_text = Some ''hi''\<rparr>,
      Tally 5 0 3 0,
      PopState 7]"
    using T
    by (simp add: ex_env_def ex_msg_def ex_world_def new_row_def stored_text_def
        nonempty_def or_empty_def)
  with h0 show ?thesis by (rule conjI)
qed

end
